theory Spec2Isabelle
  imports Main
begin

section \<open>The LRU cache of main.go\<close>

text \<open>
  The cache engine of \<^verbatim>\<open>main.go\<close>: a Go map from keys to \<^verbatim>\<open>*cacheValue\<close> and a
  \<^verbatim>\<open>container/list\<close> doubly linked list of \<^verbatim>\<open>*lruQueueItem\<close>, front = most recently
  used. Keys are the values of a type with equality: the keys Go can hash and compares
  with a reflexive \<^verbatim>\<open>==\<close> (a slice or a map as key makes the map access panic, and a NaN is
  never found again; neither is a key here). Instants (\<^verbatim>\<open>time.Time\<close>) and durations
  (\<^verbatim>\<open>time.Duration\<close>) are integers counting nanoseconds, \<^verbatim>\<open>Add\<close> is the sum and \<^verbatim>\<open>Sub\<close> the
  difference (Go saturates \<^verbatim>\<open>Sub\<close>, which keeps its sign); \<^verbatim>\<open>time.Now()\<close> is an argument of
  the operations that read the clock. The field \<^verbatim>\<open>values\<close> of the cache is \<open>values'\<close>.
\<close>

subsection \<open>Data\<close>

record 'k lruQueueItem =
  key :: 'k
  ttl :: int

text \<open>
  A \<^verbatim>\<open>*list.Element\<close>. The field \<open>addr\<close> is the identity of the allocated node, so two
  nodes that carry equal items are still different nodes; \<open>Value\<close> is never assigned
  after \<^verbatim>\<open>PushFront\<close>. Equality of two such records is pointer equality.
\<close>

record 'k Element =
  addr :: nat
  Value :: "'k lruQueueItem"

record ('k, 'v) cacheValue =
  data :: 'v
  link :: "'k Element"

text \<open>
  \<open>deleteCallback\<close> is \<open>True\<close> when the configured callback is not \<^verbatim>\<open>nil\<close>. What the
  callback does is outside the cache; each of its invocations is recorded, in order, by its
  argument in the field \<open>notified\<close> of the cache.
\<close>

record ConfigBuilder =
  defaultTTL :: int
  maxSize :: int
  cleanInterval :: int
  deleteCallback :: bool

definition Configuration :: ConfigBuilder where
  "Configuration =
     \<lparr>defaultTTL = - 1, maxSize = 2 ^ 31 - 1 - 1, cleanInterval = 60 * 1000000000,
      deleteCallback = False\<rparr>"

definition SetDefaultTTL :: "ConfigBuilder \<Rightarrow> int \<Rightarrow> ConfigBuilder" where
  "SetDefaultTTL b t = b\<lparr>defaultTTL := t\<rparr>"

definition SetMaxSize :: "ConfigBuilder \<Rightarrow> int \<Rightarrow> ConfigBuilder" where
  "SetMaxSize b sz = b\<lparr>maxSize := sz\<rparr>"

definition SetCleanupInterval :: "ConfigBuilder \<Rightarrow> int \<Rightarrow> ConfigBuilder" where
  "SetCleanupInterval b interval = b\<lparr>cleanInterval := interval\<rparr>"

definition SetDeleteCallback :: "ConfigBuilder \<Rightarrow> bool \<Rightarrow> ConfigBuilder" where
  "SetDeleteCallback b callback = b\<lparr>deleteCallback := callback\<rparr>"

text \<open>
  The cache. \<open>queue\<close> lists the nodes of the linked list from front to back; \<open>nextAddr\<close> is
  the allocator: the identity the next \<^verbatim>\<open>PushFront\<close> gives its node.
\<close>

record ('k, 'v) LRUCache =
  values' :: "'k \<rightharpoonup> ('k, 'v) cacheValue"
  queue :: "'k Element list"
  maxSize :: int
  defaultTTL :: int
  deleteCallback :: bool
  notified :: "int list"
  nextAddr :: nat

datatype error = NilDereference

subsection \<open>The operations of container/list that the cache uses\<close>

definition MoveToFront :: "'k Element list \<Rightarrow> 'k Element \<Rightarrow> 'k Element list" where
  \<comment> \<open>no effect when the node is not in this list, or is its front already\<close>
  "MoveToFront l e = (if e \<in> set l then e # remove1 e l else l)"

definition Remove :: "'k Element list \<Rightarrow> 'k Element \<Rightarrow> 'k Element list" where
  \<comment> \<open>no effect when the node is not in this list\<close>
  "Remove l e = remove1 e l"

definition Back :: "'k Element list \<Rightarrow> 'k Element option" where
  \<comment> \<open>\<^verbatim>\<open>nil\<close> on the empty list\<close>
  "Back l = (if l = [] then None else Some (last l))"

definition Len :: "'k Element list \<Rightarrow> int" where
  "Len l = int (length l)"

subsection \<open>The cache engine\<close>

definition NewLRUCache :: "ConfigBuilder \<Rightarrow> ('k, 'v) LRUCache" where
  "NewLRUCache config =
     \<lparr>values' = Map.empty, queue = [],
      maxSize = ConfigBuilder.maxSize config,
      defaultTTL = ConfigBuilder.defaultTTL config,
      deleteCallback = ConfigBuilder.deleteCallback config,
      notified = [], nextAddr = 0\<rparr>"

text \<open>
  \<^verbatim>\<open>Get\<close> returns \<^verbatim>\<open>(nil, false)\<close>, here \<open>None\<close>, or \<^verbatim>\<open>(value.data, true)\<close>, here
  \<open>Some\<close> of the data.
\<close>

definition Get :: "('k, 'v) LRUCache \<Rightarrow> 'k \<Rightarrow> ('k, 'v) LRUCache \<times> 'v option" where
  "Get c k =
     (case values' c k of
        None \<Rightarrow> (c, None)
      | Some v \<Rightarrow> (c\<lparr>queue := MoveToFront (queue c) (link v)\<rparr>, Some (data v)))"

definition unsafeDelete ::
  "('k, 'v) LRUCache \<Rightarrow> 'k \<Rightarrow> ('k, 'v) cacheValue \<Rightarrow> ('k, 'v) LRUCache" where
  "unsafeDelete c k v = c\<lparr>queue := Remove (queue c) (link v), values' := (values' c)(k := None)\<rparr>"

text \<open>
  The second critical section of \<^verbatim>\<open>Set\<close> (lines 123 to 138), entered when the key was not
  found. \<open>Set_push\<close> is its first half (lines 123 to 132): the new item, with the expiry
  computed from the clock reading \<open>now\<close>, in a new node at the front, and the map entry.
\<close>

definition Set_push :: "('k, 'v) LRUCache \<Rightarrow> 'k \<Rightarrow> 'v \<Rightarrow> int \<Rightarrow> ('k, 'v) LRUCache" where
  "Set_push c k v now =
     (let LRUitem = \<lparr>key = k, ttl = now + defaultTTL c\<rparr>;
          queueItem = \<lparr>addr = nextAddr c, Value = LRUitem\<rparr>
      in c\<lparr>queue := queueItem # queue c, nextAddr := Suc (nextAddr c),
           values' := (values' c)(k \<mapsto> \<lparr>data = v, link = queueItem\<rparr>)\<rparr>)"

text \<open>
  Its second half (lines 133 to 137) is the eviction when the list is longer than
  \<open>maxSize\<close>. It reads the key of the back node and removes the node that the map holds
  for that key; when the map holds none, \<^verbatim>\<open>unsafeDelete\<close> dereferences \<^verbatim>\<open>nil\<close> and the
  program panics.
\<close>

definition Set_insert ::
  "('k, 'v) LRUCache \<Rightarrow> 'k \<Rightarrow> 'v \<Rightarrow> int \<Rightarrow> error + ('k, 'v) LRUCache" where
  "Set_insert c k v now =
     (let c2 = Set_push c k v now
      in if Len (queue c2) > maxSize c2 then
           (case Back (queue c2) of
              None \<Rightarrow> Inl NilDereference
            | Some b \<Rightarrow>
                (case values' c2 (key (Value b)) of
                   None \<Rightarrow> Inl NilDereference
                 | Some cachedItem \<Rightarrow> Inr (unsafeDelete c2 (key (Value b)) cachedItem)))
         else Inr c2)"

text \<open>The first critical section of \<^verbatim>\<open>Set\<close> (lines 113 to 119), when the key is found.\<close>

definition Set_update ::
  "('k, 'v) LRUCache \<Rightarrow> 'k \<Rightarrow> ('k, 'v) cacheValue \<Rightarrow> 'v \<Rightarrow> ('k, 'v) LRUCache" where
  "Set_update c k found v =
     c\<lparr>values' := (values' c)(k \<mapsto> found\<lparr>data := v\<rparr>),
       queue := MoveToFront (queue c) (link found)\<rparr>"

definition Set :: "('k, 'v) LRUCache \<Rightarrow> 'k \<Rightarrow> 'v \<Rightarrow> int \<Rightarrow> error + ('k, 'v) LRUCache" where
  "Set c k v now =
     (case values' c k of
        Some found \<Rightarrow> Inr (Set_update c k found v)
      | None \<Rightarrow> Set_insert c k v now)"

definition notify :: "('k, 'v) LRUCache \<Rightarrow> int \<Rightarrow> ('k, 'v) LRUCache" where
  \<comment> \<open>\<^verbatim>\<open>if c.deleteCallback != nil { c.deleteCallback(count) }\<close>\<close>
  "notify c count = (if deleteCallback c then c\<lparr>notified := notified c @ [count]\<rparr> else c)"

definition Delete :: "('k, 'v) LRUCache \<Rightarrow> 'k \<Rightarrow> ('k, 'v) LRUCache" where
  "Delete c k =
     (case values' c k of
        None \<Rightarrow> c
      | Some v \<Rightarrow> notify (unsafeDelete c k v) 1)"

definition Clean :: "('k, 'v) LRUCache \<Rightarrow> ('k, 'v) LRUCache" where
  "Clean c = c\<lparr>values' := Map.empty, queue := []\<rparr>"

definition Size :: "('k, 'v) LRUCache \<Rightarrow> int" where
  "Size c = Len (queue c)"

text \<open>
  The loop of \<^verbatim>\<open>cleanInterval\<close>. Go ranges over the map in an order of its choice; the
  list \<open>ks\<close> is that order (the keys the iteration has yet to produce). A key that is no
  longer in the map when its turn comes is not produced. The loop calls \<^verbatim>\<open>time.Now()\<close> once
  for each key it produces: \<open>now k\<close> is the clock reading when it tests the entry of \<open>k\<close>.
\<close>

fun cleanLoop ::
  "('k, 'v) LRUCache \<Rightarrow> ('k \<Rightarrow> int) \<Rightarrow> 'k list \<Rightarrow> int \<Rightarrow> ('k, 'v) LRUCache \<times> int" where
  "cleanLoop c now [] deleted = (c, deleted)"
| "cleanLoop c now (k # ks) deleted =
     (case values' c k of
        None \<Rightarrow> cleanLoop c now ks deleted
      | Some v \<Rightarrow>
          if ttl (Value (link v)) - now k < 0
          then cleanLoop (unsafeDelete c k v) now ks (deleted + 1)
          else cleanLoop c now ks deleted)"

definition cleanInterval ::
  "('k, 'v) LRUCache \<Rightarrow> ('k \<Rightarrow> int) \<Rightarrow> 'k list \<Rightarrow> ('k, 'v) LRUCache" where
  "cleanInterval c now ks = (case cleanLoop c now ks 0 of (c', deleted) \<Rightarrow> notify c' deleted)"

subsection \<open>Histories of operations\<close>

text \<open>
  A call of the cache: \<^verbatim>\<open>Get\<close>, \<^verbatim>\<open>Set\<close> (with the clock reading of its \<^verbatim>\<open>time.Now()\<close>),
  \<^verbatim>\<open>Delete\<close>, \<^verbatim>\<open>Clean\<close>, or one pass of the sweeper (with its clock readings and the order
  in which the map was ranged over).
\<close>

datatype ('k, 'v) op =
    OpGet 'k
  | OpSet 'k 'v int
  | OpDelete 'k
  | OpClean
  | OpSweep "'k \<Rightarrow> int" "'k list"

text \<open>
  \<open>reaches config ops c\<close>: the cache built by \<^verbatim>\<open>NewLRUCache(config)\<close> is in state \<open>c\<close> after
  the calls \<open>ops\<close>, made one after the other. The sweeper runs only when the default TTL
  is not negative, and a pass ranges over every key of the map once.
\<close>

inductive reaches :: "ConfigBuilder \<Rightarrow> ('k, 'v) op list \<Rightarrow> ('k, 'v) LRUCache \<Rightarrow> bool" where
  reaches_New: "reaches config [] (NewLRUCache config)"
| reaches_Get: "reaches config ops c \<Longrightarrow> reaches config (ops @ [OpGet k]) (fst (Get c k))"
| reaches_Set: "reaches config ops c \<Longrightarrow> Set c k v now = Inr c' \<Longrightarrow>
     reaches config (ops @ [OpSet k v now]) c'"
| reaches_Delete: "reaches config ops c \<Longrightarrow> reaches config (ops @ [OpDelete k]) (Delete c k)"
| reaches_Clean: "reaches config ops c \<Longrightarrow> reaches config (ops @ [OpClean]) (Clean c)"
| reaches_Sweep: "reaches config ops c \<Longrightarrow> 0 \<le> defaultTTL c \<Longrightarrow>
     distinct ks \<Longrightarrow> set ks = dom (values' c) \<Longrightarrow>
     reaches config (ops @ [OpSweep now ks]) (cleanInterval c now ks)"

subsection \<open>What the specification speaks of\<close>

text \<open>
  The correspondence of store and queue: no two nodes of the queue carry the same key, the
  keys of the nodes are the keys of the map, and the entry of a node's key links to that
  node.
\<close>

definition consistent :: "('k, 'v) LRUCache \<Rightarrow> bool" where
  "consistent c \<longleftrightarrow>
     distinct (map (\<lambda>e. key (Value e)) (queue c)) \<and>
     (\<lambda>e. key (Value e)) ` set (queue c) = dom (values' c) \<and>
     (\<forall>e \<in> set (queue c). map_option link (values' c (key (Value e))) = Some e)"

text \<open>
  The key a call touches, and \<open>lastTouch ops k\<close>: the position in \<open>ops\<close>, counted from 1,
  of the last \<^verbatim>\<open>Get\<close> or \<^verbatim>\<open>Set\<close> of \<open>k\<close> (0 when there is none). A \<^verbatim>\<open>Get\<close> that does not find
  its key touches no entry; it is counted all the same, which changes nothing for a key
  that is stored: the key was set after every \<^verbatim>\<open>Get\<close> that did not find it.
\<close>

fun touched :: "('k, 'v) op \<Rightarrow> 'k option" where
  "touched (OpGet k) = Some k"
| "touched (OpSet k v now) = Some k"
| "touched (OpDelete k) = None"
| "touched OpClean = None"
| "touched (OpSweep now ks) = None"

fun lastTouch :: "('k, 'v) op list \<Rightarrow> 'k \<Rightarrow> nat" where
  "lastTouch [] k = 0"
| "lastTouch (x # xs) k =
     (if lastTouch xs k \<noteq> 0 then Suc (lastTouch xs k)
      else if touched x = Some k then 1 else 0)"

text \<open>
  The queue is in the order of recency after the calls \<open>ops\<close>: of two nodes, the one
  nearer the front carries the key touched later.
\<close>

definition recency_ordered :: "('k, 'v) op list \<Rightarrow> ('k, 'v) LRUCache \<Rightarrow> bool" where
  "recency_ordered ops c \<longleftrightarrow>
     sorted_wrt (\<lambda>a b. lastTouch ops (key (Value b)) < lastTouch ops (key (Value a))) (queue c)"

text \<open>\<open>lastSet ops k\<close>: the value of the last \<^verbatim>\<open>Set\<close> of \<open>k\<close> in \<open>ops\<close>.\<close>

fun setOf :: "('k, 'v) op \<Rightarrow> 'k \<Rightarrow> 'v option" where
  "setOf (OpSet k' v now) k = (if k' = k then Some v else None)"
| "setOf (OpGet k') k = None"
| "setOf (OpDelete k') k = None"
| "setOf OpClean k = None"
| "setOf (OpSweep now ks) k = None"

fun lastSet :: "('k, 'v) op list \<Rightarrow> 'k \<Rightarrow> 'v option" where
  "lastSet [] k = None"
| "lastSet (x # xs) k = (case lastSet xs k of Some v \<Rightarrow> Some v | None \<Rightarrow> setOf x k)"

text \<open>
  The sweeper's test, \<^verbatim>\<open>item.ttl.Sub(time.Now()) < 0\<close>, on the entry of a key.
\<close>

definition expired :: "('k, 'v) LRUCache \<Rightarrow> ('k \<Rightarrow> int) \<Rightarrow> 'k \<Rightarrow> bool" where
  "expired c now k =
     (case values' c k of None \<Rightarrow> False | Some v \<Rightarrow> ttl (Value (link v)) - now k < 0)"

subsection \<open>Concurrent callers\<close>

text \<open>
  \<^verbatim>\<open>Get\<close>, \<^verbatim>\<open>Set\<close> and \<^verbatim>\<open>Delete\<close> each take the lock twice. What runs under one holding of
  the lock is one atomic step; between its two steps a caller keeps what it read in the
  first: the \<^verbatim>\<open>*cacheValue\<close> found, or that the key was not found. A thread is a call with
  the step it is about to take.
\<close>

datatype ('k, 'v) thread =
    Get_lookup 'k
  | Get_touch "('k, 'v) cacheValue"
  | Set_check 'k 'v
  | Set_store 'k 'v
  | Delete_lookup 'k
  | Delete_remove 'k "('k, 'v) cacheValue"
  | Delete_notify
  | Sweep_scan "'k \<Rightarrow> int" "'k list"
  | Sweep_notify int
  | Done

fun step ::
  "('k, 'v) LRUCache \<Rightarrow> int \<Rightarrow> ('k, 'v) thread \<Rightarrow> error + ('k, 'v) LRUCache \<times> ('k, 'v) thread" where
  "step c now (Get_lookup k) =
     (case values' c k of None \<Rightarrow> Inr (c, Done) | Some v \<Rightarrow> Inr (c, Get_touch v))"
| "step c now (Get_touch v) = Inr (c\<lparr>queue := MoveToFront (queue c) (link v)\<rparr>, Done)"
| "step c now (Set_check k v) =
     (case values' c k of
        Some found \<Rightarrow> Inr (Set_update c k found v, Done)
      | None \<Rightarrow> Inr (c, Set_store k v))"
| "step c now (Set_store k v) =
     (case Set_insert c k v now of Inl e \<Rightarrow> Inl e | Inr c' \<Rightarrow> Inr (c', Done))"
| "step c now (Delete_lookup k) =
     (case values' c k of None \<Rightarrow> Inr (c, Done) | Some v \<Rightarrow> Inr (c, Delete_remove k v))"
| "step c now (Delete_remove k v) = Inr (unsafeDelete c k v, Delete_notify)"
| "step c now Delete_notify = Inr (notify c 1, Done)"
| "step c now (Sweep_scan readings ks) =
     (case cleanLoop c readings ks 0 of (c', deleted) \<Rightarrow> Inr (c', Sweep_notify deleted))"
| "step c now (Sweep_notify deleted) = Inr (notify c deleted, Done)"
| "step c now Done = Inr (c, Done)"

text \<open>
  An interleaving is a schedule: which thread takes its next step, and the clock reading
  of that step (\<^verbatim>\<open>Set\<close> reads the clock for the expiry of a new item; a pass of the sweeper
  carries its own readings). A panic of one thread ends the run. What a caller returns is
  not part of the run.
\<close>

fun interleave ::
  "('k, 'v) LRUCache \<Rightarrow> ('k, 'v) thread list \<Rightarrow> (nat \<times> int) list \<Rightarrow>
   error + ('k, 'v) LRUCache \<times> ('k, 'v) thread list" where
  "interleave c ts [] = Inr (c, ts)"
| "interleave c ts ((i, now) # sched) =
     (if i < length ts then
        (case step c now (ts ! i) of
           Inl e \<Rightarrow> Inl e
         | Inr (c', t') \<Rightarrow> interleave c' (ts[i := t']) sched)
      else interleave c ts sched)"

section \<open>Lists and the correspondence of store and queue\<close>

lemma distinct_map_remove1:
  "distinct (map f xs) \<Longrightarrow> distinct (map f (remove1 x xs))"
proof -
  assume "distinct (map f xs)"
  then have "distinct xs" and "inj_on f (set xs)" by (simp_all add: distinct_map)
  moreover have "set (remove1 x xs) \<subseteq> set xs" by (rule set_remove1_subset)
  ultimately show ?thesis by (auto simp: distinct_map intro: inj_on_subset)
qed

lemma distinct_map_key_eq:
  "distinct (map f xs) \<Longrightarrow> x \<in> set xs \<Longrightarrow> y \<in> set xs \<Longrightarrow> f x = f y \<Longrightarrow> x = y"
  by (meson distinct_map inj_on_def)

lemma remove1_filter_key:
  "distinct (map f xs) \<Longrightarrow> x \<in> set xs \<Longrightarrow> remove1 x xs = filter (\<lambda>y. f y \<noteq> f x) xs"
proof (induction xs)
  case Nil
  then show ?case by simp
next
  case (Cons a xs)
  show ?case
  proof (cases "a = x")
    case True
    with Cons.prems have "\<forall>y \<in> set xs. f y \<noteq> f x" by (auto simp: image_iff)
    then have "filter (\<lambda>y. f y \<noteq> f x) xs = xs" by (simp add: filter_id_conv)
    with True show ?thesis by simp
  next
    case False
    with Cons.prems have "x \<in> set xs" "f a \<noteq> f x" by auto
    with Cons False show ?thesis by auto
  qed
qed

lemma consistent_link:
  "consistent c \<Longrightarrow> values' c k = Some v \<Longrightarrow> link v \<in> set (queue c) \<and> key (Value (link v)) = k"
proof -
  assume c: "consistent c" and v: "values' c k = Some v"
  from v have "k \<in> dom (values' c)" by auto
  with c have "k \<in> (\<lambda>e. key (Value e)) ` set (queue c)"
    unfolding consistent_def by simp
  then obtain e where e: "e \<in> set (queue c)" "key (Value e) = k" by auto
  with c have "map_option link (values' c (key (Value e))) = Some e"
    unfolding consistent_def by blast
  with e v show ?thesis by simp
qed

lemma consistent_node:
  "consistent c \<Longrightarrow> e \<in> set (queue c) \<Longrightarrow> \<exists>v. values' c (key (Value e)) = Some v \<and> link v = e"
  unfolding consistent_def by fastforce

lemma consistent_New: "consistent (NewLRUCache config)"
  by (simp add: consistent_def NewLRUCache_def)

lemma consistent_MoveToFront:
  assumes "consistent c"
  shows "consistent (c\<lparr>queue := MoveToFront (queue c) e\<rparr>)"
proof (cases "e \<in> set (queue c)")
  case False
  with assms show ?thesis by (simp add: MoveToFront_def)
next
  case True
  from assms have d: "distinct (map (\<lambda>e. key (Value e)) (queue c))"
    by (simp add: consistent_def)
  then have dq: "distinct (queue c)" by (simp add: distinct_map)
  have s: "set (e # remove1 e (queue c)) = set (queue c)"
    using True dq by auto
  have "key (Value e) \<notin> (\<lambda>e. key (Value e)) ` set (remove1 e (queue c))"
    using d True dq by (auto simp: set_remove1_eq dest: distinct_map_key_eq)
  with d have "distinct (map (\<lambda>e. key (Value e)) (e # remove1 e (queue c)))"
    by (simp add: distinct_map_remove1)
  with assms s True show ?thesis
    unfolding consistent_def MoveToFront_def by simp
qed

lemma consistent_Get: "consistent c \<Longrightarrow> consistent (fst (Get c k))"
  by (auto simp: Get_def consistent_MoveToFront split: option.splits)

lemma consistent_unsafeDelete:
  assumes c: "consistent c" and v: "values' c k = Some v"
  shows "consistent (unsafeDelete c k v)"
proof -
  let ?f = "\<lambda>e. key (Value e)"
  from consistent_link [OF c v] have l: "link v \<in> set (queue c)" "?f (link v) = k" by auto
  from c have d: "distinct (map ?f (queue c))" by (simp add: consistent_def)
  then have dq: "distinct (queue c)" by (simp add: distinct_map)
  have r: "remove1 (link v) (queue c) = filter (\<lambda>y. ?f y \<noteq> k) (queue c)"
    using remove1_filter_key [OF d l(1)] l(2) by simp
  have "?f ` set (filter (\<lambda>y. ?f y \<noteq> k) (queue c)) = dom (values' c) - {k}"
    using c unfolding consistent_def by auto
  moreover have "distinct (map ?f (filter (\<lambda>y. ?f y \<noteq> k) (queue c)))"
    using d by (simp add: distinct_map_filter)
  moreover have "\<forall>e \<in> set (filter (\<lambda>y. ?f y \<noteq> k) (queue c)).
      map_option link (((values' c)(k := None)) (?f e)) = Some e"
    using c unfolding consistent_def by simp
  ultimately show ?thesis
    unfolding consistent_def unsafeDelete_def Remove_def r by simp
qed

lemma consistent_notify [simp]: "consistent (notify c n) = consistent c"
  by (simp add: consistent_def notify_def)

lemma consistent_Delete: "consistent c \<Longrightarrow> consistent (Delete c k)"
  by (auto simp: Delete_def consistent_unsafeDelete split: option.splits)

lemma consistent_Clean: "consistent (Clean c)"
  by (simp add: consistent_def Clean_def)

lemma consistent_cleanLoop:
  "consistent c \<Longrightarrow> consistent (fst (cleanLoop c now ks n))"
proof (induction ks arbitrary: c n)
  case Nil
  then show ?case by simp
next
  case (Cons k ks)
  show ?case
  proof (cases "values' c k")
    case None
    with Cons show ?thesis by simp
  next
    case (Some v)
    with Cons.prems have "consistent (unsafeDelete c k v)" by (simp add: consistent_unsafeDelete)
    with Cons Some show ?thesis by simp
  qed
qed

lemma consistent_cleanInterval: "consistent c \<Longrightarrow> consistent (cleanInterval c now ks)"
  using consistent_cleanLoop [of c now ks 0]
  by (cases "cleanLoop c now ks 0") (simp add: cleanInterval_def)

lemma consistent_Set_update:
  assumes "consistent c" and "values' c k = Some found"
  shows "consistent (Set_update c k found v)"
proof -
  have "consistent (c\<lparr>values' := (values' c)(k \<mapsto> found\<lparr>data := v\<rparr>)\<rparr>)"
    using assms unfolding consistent_def by (auto simp: domIff)
  from consistent_MoveToFront [OF this, of "link found"] show ?thesis
    by (simp add: Set_update_def)
qed

lemma consistent_Set_push:
  assumes c: "consistent c" and k: "values' c k = None"
  shows "consistent (Set_push c k v now)"
proof -
  from c k have "k \<notin> (\<lambda>e. key (Value e)) ` set (queue c)"
    unfolding consistent_def by (auto simp: domIff)
  with c show ?thesis
    unfolding consistent_def Set_push_def Let_def by auto
qed

lemma Set_insert_consistent:
  assumes c: "consistent c" and k: "values' c k = None"
  shows "\<exists>c'. Set_insert c k v now = Inr c' \<and> consistent c'"
proof -
  let ?c2 = "Set_push c k v now"
  have c2: "consistent ?c2" by (rule consistent_Set_push [OF c k])
  have ne: "queue ?c2 \<noteq> []" by (simp add: Set_push_def Let_def)
  then have "last (queue ?c2) \<in> set (queue ?c2)" by simp
  from consistent_node [OF c2 this] obtain cv where
    "values' ?c2 (key (Value (last (queue ?c2)))) = Some cv" by blast
  with c2 ne show ?thesis
    by (simp add: Set_insert_def Let_def Back_def consistent_unsafeDelete)
qed

lemma Set_consistent:
  "consistent c \<Longrightarrow> \<exists>c'. Set c k v now = Inr c' \<and> consistent c'"
  by (cases "values' c k") (simp_all add: Set_def Set_insert_consistent consistent_Set_update)

section \<open>What the operations compute\<close>

lemma remove1_last:
  assumes "distinct xs" and "xs \<noteq> []"
  shows "remove1 (last xs) xs = butlast xs"
proof -
  from assms(2) have xs: "xs = butlast xs @ [last xs]" by simp
  with assms(1) have "last xs \<notin> set (butlast xs)"
    by (metis distinct_append distinct.simps(2) disjoint_iff list.set_intros(1))
  then have "remove1 (last xs) (butlast xs @ [last xs]) = butlast xs"
    by (simp add: remove1_append)
  with xs show ?thesis by simp
qed

lemma length_MoveToFront [simp]: "length (MoveToFront l e) = length l"
proof (cases "e \<in> set l")
  case True
  then have "l \<noteq> []" by auto
  with True show ?thesis by (simp add: MoveToFront_def length_remove1)
next
  case False
  then show ?thesis by (simp add: MoveToFront_def)
qed

lemma set_MoveToFront [simp]: "set (MoveToFront l e) = set l"
  by (auto simp: MoveToFront_def dest: notin_set_remove1 intro: in_set_remove1 [THEN iffD2])

lemma queue_Set_push:
  "queue (Set_push c k v now) = \<lparr>addr = nextAddr c, Value = \<lparr>key = k, ttl = now + defaultTTL c\<rparr>\<rparr> # queue c"
  by (simp add: Set_push_def Let_def)

lemma values_Set_push:
  "values' (Set_push c k v now) =
     (values' c)(k \<mapsto> \<lparr>data = v, link = \<lparr>addr = nextAddr c, Value = \<lparr>key = k, ttl = now + defaultTTL c\<rparr>\<rparr>\<rparr>)"
  by (simp add: Set_push_def Let_def)

lemma config_Set_push [simp]:
  "maxSize (Set_push c k v now) = maxSize c"
  "defaultTTL (Set_push c k v now) = defaultTTL c"
  "deleteCallback (Set_push c k v now) = deleteCallback c"
  "notified (Set_push c k v now) = notified c"
  by (simp_all add: Set_push_def Let_def)

text \<open>What the second critical section of Set returns on a consistent cache.\<close>

lemma Set_insert_result:
  assumes c: "consistent c" and k: "values' c k = None"
  shows "Set_insert c k v now =
     Inr (if Len (queue (Set_push c k v now)) > maxSize c
          then (Set_push c k v now)
                 \<lparr>queue := butlast (queue (Set_push c k v now)),
                  values' := (values' (Set_push c k v now))
                    (key (Value (last (queue (Set_push c k v now)))) := None)\<rparr>
          else Set_push c k v now)"
proof -
  let ?p = "Set_push c k v now"
  have p: "consistent ?p" by (rule consistent_Set_push [OF c k])
  have ne: "queue ?p \<noteq> []" by (simp add: queue_Set_push)
  then have "last (queue ?p) \<in> set (queue ?p)" by simp
  from consistent_node [OF p this] obtain cv where
    cv: "values' ?p (key (Value (last (queue ?p)))) = Some cv" "link cv = last (queue ?p)"
    by blast
  from p have "distinct (queue ?p)" by (simp add: consistent_def distinct_map)
  from remove1_last [OF this ne] cv ne show ?thesis
    by (simp add: Set_insert_def Let_def Back_def unsafeDelete_def Remove_def)
qed

lemma length_cleanLoop:
  "length (queue (fst (cleanLoop c now ks n))) \<le> length (queue c)"
proof (induction ks arbitrary: c n)
  case Nil
  then show ?case by simp
next
  case (Cons k ks)
  show ?case
  proof (cases "values' c k")
    case None
    with Cons [of c n] show ?thesis by simp
  next
    case (Some v)
    show ?thesis
    proof (cases "ttl (Value (link v)) - now k < 0")
      case True
      have "length (queue (unsafeDelete c k v)) \<le> length (queue c)"
        by (simp add: unsafeDelete_def Remove_def length_remove1)
      with Cons [of "unsafeDelete c k v" "n + 1"] Some True show ?thesis
        by simp
    next
      case False
      with Some Cons [of c n] show ?thesis by simp
    qed
  qed
qed

lemma config_cleanLoop_conj:
  "maxSize (fst (cleanLoop c now ks n)) = maxSize c \<and>
   defaultTTL (fst (cleanLoop c now ks n)) = defaultTTL c \<and>
   deleteCallback (fst (cleanLoop c now ks n)) = deleteCallback c \<and>
   notified (fst (cleanLoop c now ks n)) = notified c"
proof (induction ks arbitrary: c n)
  case Nil
  show ?case by simp
next
  case (Cons k ks)
  show ?case
  proof (cases "values' c k")
    case None
    with Cons [of c n] show ?thesis by simp
  next
    case (Some v)
    show ?thesis
    proof (cases "ttl (Value (link v)) - now k < 0")
      case True
      with Some Cons [of "unsafeDelete c k v" "n + 1"] show ?thesis
        by (simp add: unsafeDelete_def)
    next
      case False
      with Some Cons [of c n] show ?thesis by simp
    qed
  qed
qed

lemma config_cleanLoop [simp]:
  "maxSize (fst (cleanLoop c now ks n)) = maxSize c"
  "defaultTTL (fst (cleanLoop c now ks n)) = defaultTTL c"
  "deleteCallback (fst (cleanLoop c now ks n)) = deleteCallback c"
  "notified (fst (cleanLoop c now ks n)) = notified c"
  using config_cleanLoop_conj [of c now ks n] by simp_all

section \<open>Invariants of the reachable states\<close>

lemma reaches_consistent: "reaches config ops c \<Longrightarrow> consistent c"
proof (induction rule: reaches.induct)
  case (reaches_Set config ops c k v now c')
  with Set_consistent [of c k v now] show ?case by auto
qed (simp_all add: consistent_New consistent_Get consistent_Delete consistent_Clean
       consistent_cleanInterval)

lemma config_unsafeDelete [simp]:
  "maxSize (unsafeDelete c k v) = maxSize c"
  "defaultTTL (unsafeDelete c k v) = defaultTTL c"
  "deleteCallback (unsafeDelete c k v) = deleteCallback c"
  "notified (unsafeDelete c k v) = notified c"
  by (simp_all add: unsafeDelete_def)

lemma config_notify [simp]:
  "maxSize (notify c n) = maxSize c"
  "defaultTTL (notify c n) = defaultTTL c"
  "deleteCallback (notify c n) = deleteCallback c"
  "values' (notify c n) = values' c"
  "queue (notify c n) = queue c"
  by (simp_all add: notify_def)

lemma Set_insert_cases:
  assumes "Set_insert c k v now = Inr c'"
  shows "c' = Set_push c k v now \<or> (\<exists>kb cv. c' = unsafeDelete (Set_push c k v now) kb cv)"
proof (cases "Len (queue (Set_push c k v now)) > maxSize (Set_push c k v now)")
  case False
  with assms show ?thesis by (simp add: Set_insert_def Let_def)
next
  case True
  with assms show ?thesis
    by (auto simp add: Set_insert_def Let_def split: option.splits)
qed

lemma config_Set:
  assumes "Set c k v now = Inr c'"
  shows "maxSize c' = maxSize c \<and> defaultTTL c' = defaultTTL c \<and>
     deleteCallback c' = deleteCallback c \<and> notified c' = notified c"
proof (cases "values' c k")
  case (Some found)
  with assms show ?thesis by (auto simp: Set_def Set_update_def)
next
  case None
  with assms have "Set_insert c k v now = Inr c'" by (simp add: Set_def)
  from Set_insert_cases [OF this] show ?thesis by auto
qed

lemma config_Get [simp]:
  "maxSize (fst (Get c k)) = maxSize c"
  "defaultTTL (fst (Get c k)) = defaultTTL c"
  "deleteCallback (fst (Get c k)) = deleteCallback c"
  "notified (fst (Get c k)) = notified c"
  "values' (fst (Get c k)) = values' c"
  by (simp_all add: Get_def split: option.splits)

lemma config_Delete [simp]:
  "maxSize (Delete c k) = maxSize c"
  "defaultTTL (Delete c k) = defaultTTL c"
  "deleteCallback (Delete c k) = deleteCallback c"
  by (simp_all add: Delete_def split: option.splits)

lemma config_cleanInterval [simp]:
  "maxSize (cleanInterval c now ks) = maxSize c"
  "defaultTTL (cleanInterval c now ks) = defaultTTL c"
  "deleteCallback (cleanInterval c now ks) = deleteCallback c"
proof -
  obtain c' n where r: "cleanLoop c now ks 0 = (c', n)" by (cases "cleanLoop c now ks 0")
  then have "c' = fst (cleanLoop c now ks 0)" by simp
  then have "maxSize c' = maxSize c" "defaultTTL c' = defaultTTL c"
    "deleteCallback c' = deleteCallback c" by simp_all
  with r show "maxSize (cleanInterval c now ks) = maxSize c"
    "defaultTTL (cleanInterval c now ks) = defaultTTL c"
    "deleteCallback (cleanInterval c now ks) = deleteCallback c"
    by (simp_all add: cleanInterval_def)
qed

lemma reaches_config:
  "reaches config ops c \<Longrightarrow>
     maxSize c = ConfigBuilder.maxSize config \<and>
     defaultTTL c = ConfigBuilder.defaultTTL config \<and>
     deleteCallback c = ConfigBuilder.deleteCallback config"
proof (induction rule: reaches.induct)
  case (reaches_New config)
  show ?case by (simp add: NewLRUCache_def)
next
  case (reaches_Set config ops c k v now c')
  with config_Set [OF reaches_Set.hyps(2)] show ?case by simp
next
  case (reaches_Clean config ops c)
  then show ?case by (simp add: Clean_def)
qed simp_all

lemma reaches_bounded:
  "reaches config ops c \<Longrightarrow> Len (queue c) \<le> max 0 (maxSize c)"
proof (induction rule: reaches.induct)
  case (reaches_New config)
  then show ?case by (simp add: NewLRUCache_def Len_def)
next
  case (reaches_Get config ops c k)
  then show ?case by (simp add: Get_def Len_def split: option.splits)
next
  case (reaches_Set config ops c k v now c')
  show ?case
  proof (cases "values' c k")
    case (Some found)
    with reaches_Set show ?thesis by (auto simp: Set_def Set_update_def Len_def)
  next
    case None
    from reaches_Set.hyps(1) have "consistent c" by (rule reaches_consistent)
    from Set_insert_result [OF this None, of v now] reaches_Set.hyps(2) None
    have c': "c' = (if Len (queue (Set_push c k v now)) > maxSize c
          then (Set_push c k v now)
                 \<lparr>queue := butlast (queue (Set_push c k v now)),
                  values' := (values' (Set_push c k v now))
                    (key (Value (last (queue (Set_push c k v now)))) := None)\<rparr>
          else Set_push c k v now)" by (simp add: Set_def)
    show ?thesis
    proof (cases "Len (queue (Set_push c k v now)) > maxSize c")
      case True
      with c' reaches_Set.IH show ?thesis
        by (simp add: Len_def queue_Set_push)
    next
      case False
      with c' show ?thesis by simp
    qed
  qed
next
  case (reaches_Delete config ops c k)
  have "Len (queue (Delete c k)) \<le> Len (queue c)"
    by (simp add: Delete_def notify_def unsafeDelete_def Remove_def Len_def length_remove1
        split: option.splits)
  then show ?case using reaches_Delete by simp
next
  case (reaches_Clean config ops c)
  show ?case by (simp add: Clean_def Len_def)
next
  case (reaches_Sweep config ops c ks now)
  have "queue (cleanInterval c now ks) = queue (fst (cleanLoop c now ks 0))"
    by (cases "cleanLoop c now ks 0") (simp add: cleanInterval_def)
  with length_cleanLoop [of c now ks 0] reaches_Sweep show ?case
    by (simp add: Len_def)
qed

lemma consistent_Size:
  assumes "consistent c"
  shows "Size c = int (card (dom (values' c)))"
proof -
  from assms have "card (dom (values' c)) = card (set (map (\<lambda>e. key (Value e)) (queue c)))"
    by (simp add: consistent_def)
  also from assms have "\<dots> = length (map (\<lambda>e. key (Value e)) (queue c))"
    unfolding consistent_def by (metis distinct_card)
  finally show ?thesis by (simp add: Size_def Len_def)
qed

lemma consistent_one_node:
  assumes "consistent c" and "k \<in> dom (values' c)"
  shows "\<exists>!e. e \<in> set (queue c) \<and> key (Value e) = k"
proof -
  from assms obtain cv where cv: "values' c k = Some cv" by auto
  from consistent_link [OF assms(1) cv] have "link cv \<in> set (queue c) \<and> key (Value (link cv)) = k" .
  moreover have "e = link cv" if "e \<in> set (queue c) \<and> key (Value e) = k" for e
    using consistent_node [OF assms(1), of e] that cv by auto
  ultimately show ?thesis by blast
qed

lemma consistent_one_key:
  assumes "consistent c" and "e \<in> set (queue c)"
  shows "key (Value e) \<in> dom (values' c)"
  using consistent_node [OF assms] by auto

section \<open>Histories and the sweep\<close>

lemma lastSet_snoc:
  "lastSet (xs @ [x]) k = (case setOf x k of Some v \<Rightarrow> Some v | None \<Rightarrow> lastSet xs k)"
  by (induction xs) (auto split: option.splits)

lemma values_unsafeDelete [simp]:
  "values' (unsafeDelete c k v) = (values' c)(k := None)"
  by (simp add: unsafeDelete_def)

lemma queue_unsafeDelete [simp]:
  "queue (unsafeDelete c k v) = remove1 (link v) (queue c)"
  by (simp add: unsafeDelete_def Remove_def)

lemma values_cleanLoop:
  "values' (fst (cleanLoop c now ks n)) =
     (\<lambda>k. if k \<in> set ks \<and> expired c now k then None else values' c k)"
proof (induction ks arbitrary: c n)
  case Nil
  show ?case by simp
next
  case (Cons a ks)
  show ?case
  proof (cases "values' c a")
    case None
    then have "\<not> expired c now a" by (simp add: expired_def)
    with None Cons [of c n] show ?thesis by (auto simp: fun_eq_iff)
  next
    case (Some v)
    show ?thesis
    proof (cases "ttl (Value (link v)) - now a < 0")
      case True
      have e: "expired (unsafeDelete c a v) now k = (k \<noteq> a \<and> expired c now k)" for k
        by (simp add: expired_def)
      from True Some have "expired c now a" by (simp add: expired_def)
      with True Some Cons [of "unsafeDelete c a v" "n + 1"] e show ?thesis
        by (auto simp: fun_eq_iff)
    next
      case False
      with Some have "\<not> expired c now a" by (simp add: expired_def)
      with False Some Cons [of c n] show ?thesis by (auto simp: fun_eq_iff)
    qed
  qed
qed

lemma values_cleanInterval:
  "values' (cleanInterval c now ks) =
     (\<lambda>k. if k \<in> set ks \<and> expired c now k then None else values' c k)"
  using values_cleanLoop [of c now ks 0]
  by (cases "cleanLoop c now ks 0") (simp add: cleanInterval_def)

lemma values_Delete: "values' (Delete c k) = (values' c)(k := None)"
  by (auto simp: Delete_def split: option.splits)

lemma reaches_lastSet:
  "reaches config ops c \<Longrightarrow> values' c k = Some cv \<Longrightarrow> lastSet ops k = Some (data cv)"
proof (induction arbitrary: cv rule: reaches.induct)
  case (reaches_New config)
  then show ?case by (simp add: NewLRUCache_def)
next
  case (reaches_Get config ops c k')
  then show ?case by (simp add: lastSet_snoc)
next
  case (reaches_Set config ops c k' v now c')
  show ?case
  proof (cases "values' c k'")
    case (Some found)
    with reaches_Set.hyps(2) have "c' = Set_update c k' found v" by (simp add: Set_def)
    with reaches_Set.prems reaches_Set.IH show ?thesis
      by (auto simp: Set_update_def lastSet_snoc split: if_splits)
  next
    case None
    with reaches_Set.hyps(2) have "Set_insert c k' v now = Inr c'" by (simp add: Set_def)
    from Set_insert_cases [OF this] reaches_Set.prems
    have "values' (Set_push c k' v now) k = Some cv"
      by (auto split: if_splits)
    with reaches_Set.IH show ?thesis
      by (auto simp: values_Set_push lastSet_snoc split: if_splits)
  qed
next
  case (reaches_Delete config ops c k')
  then show ?case by (auto simp: values_Delete lastSet_snoc split: if_splits)
next
  case (reaches_Clean config ops c)
  then show ?case by (simp add: Clean_def)
next
  case (reaches_Sweep config ops c ks now)
  then show ?case by (auto simp: values_cleanInterval lastSet_snoc split: if_splits)
qed

lemma expired_node:
  assumes c: "consistent c" and e: "e \<in> set (queue c)"
  shows "expired c now (key (Value e)) = (ttl (Value e) - now (key (Value e)) < 0)"
  using consistent_node [OF c e] by (auto simp: expired_def)

lemma queue_cleanLoop:
  "consistent c \<Longrightarrow>
   queue (fst (cleanLoop c now ks n)) =
     filter (\<lambda>e. \<not> (key (Value e) \<in> set ks \<and> ttl (Value e) - now (key (Value e)) < 0)) (queue c)"
proof (induction ks arbitrary: c n)
  case Nil
  show ?case by simp
next
  case (Cons a ks)
  note c = \<open>consistent c\<close>
  show ?case
  proof (cases "values' c a")
    case None
    with c have "\<forall>e \<in> set (queue c). key (Value e) \<noteq> a"
      using consistent_one_key [OF c] by auto
    then have "filter (\<lambda>e. \<not> (key (Value e) \<in> set (a # ks) \<and> ttl (Value e) - now (key (Value e)) < 0)) (queue c)
        = filter (\<lambda>e. \<not> (key (Value e) \<in> set ks \<and> ttl (Value e) - now (key (Value e)) < 0)) (queue c)"
      by (auto intro: filter_cong)
    with None Cons.IH [OF c, of n] show ?thesis by simp
  next
    case (Some v)
    from consistent_link [OF c Some]
    have l: "link v \<in> set (queue c)" "key (Value (link v)) = a" by auto
    have u: "e = link v" if "e \<in> set (queue c)" "key (Value e) = a" for e
      using consistent_node [OF c that(1)] that(2) Some by auto
    show ?thesis
    proof (cases "ttl (Value (link v)) - now a < 0")
      case True
      from c have "distinct (map (\<lambda>e. key (Value e)) (queue c))" by (simp add: consistent_def)
      from remove1_filter_key [OF this l(1)] l(2)
      have q: "queue (unsafeDelete c a v) = filter (\<lambda>e. key (Value e) \<noteq> a) (queue c)"
        by simp
      have "filter (\<lambda>e. \<not> (key (Value e) \<in> set ks \<and> ttl (Value e) - now (key (Value e)) < 0))
              (filter (\<lambda>e. key (Value e) \<noteq> a) (queue c))
          = filter (\<lambda>e. \<not> (key (Value e) \<in> set (a # ks) \<and> ttl (Value e) - now (key (Value e)) < 0)) (queue c)"
        unfolding filter_filter using u True by (auto intro!: filter_cong)
      with Cons.IH [OF consistent_unsafeDelete [OF c Some], of "n + 1"] q True Some
      show ?thesis by simp
    next
      case False
      with u have "filter (\<lambda>e. \<not> (key (Value e) \<in> set (a # ks) \<and> ttl (Value e) - now (key (Value e)) < 0)) (queue c)
        = filter (\<lambda>e. \<not> (key (Value e) \<in> set ks \<and> ttl (Value e) - now (key (Value e)) < 0)) (queue c)"
        by (auto intro!: filter_cong)
      with False Some Cons.IH [OF c, of n] show ?thesis by simp
    qed
  qed
qed

lemma count_cleanLoop:
  "distinct ks \<Longrightarrow>
   snd (cleanLoop c now ks n) = n + int (card {k \<in> set ks. expired c now k})"
proof (induction ks arbitrary: c n)
  case Nil
  show ?case by simp
next
  case (Cons a ks)
  then have d: "distinct ks" and a: "a \<notin> set ks" by auto
  show ?case
  proof (cases "expired c now a")
    case False
    then have "{k \<in> set (a # ks). expired c now k} = {k \<in> set ks. expired c now k}" by auto
    with False Cons.IH [OF d, of c n] show ?thesis
      by (auto simp: expired_def split: option.splits)
  next
    case True
    then obtain v where v: "values' c a = Some v" "ttl (Value (link v)) - now a < 0"
      by (auto simp: expired_def split: option.splits)
    have "expired (unsafeDelete c a v) now k = expired c now k" if "k \<in> set ks" for k
      using that a by (auto simp: expired_def)
    then have "{k \<in> set ks. expired (unsafeDelete c a v) now k} = {k \<in> set ks. expired c now k}"
      by auto
    moreover from True a have "{k \<in> set (a # ks). expired c now k}
        = insert a {k \<in> set ks. expired c now k}" by auto
    moreover have "a \<notin> {k \<in> set ks. expired c now k}" using a by simp
    moreover have "finite {k \<in> set ks. expired c now k}" by simp
    ultimately show ?thesis
      using v Cons.IH [OF d, of "unsafeDelete c a v" "n + 1"] by simp
  qed
qed

lemma New_fields:
  "values' (NewLRUCache config) = Map.empty"
  "queue (NewLRUCache config) = []"
  "maxSize (NewLRUCache config) = ConfigBuilder.maxSize config"
  "defaultTTL (NewLRUCache config) = ConfigBuilder.defaultTTL config"
  "deleteCallback (NewLRUCache config) = ConfigBuilder.deleteCallback config"
  "notified (NewLRUCache config) = []"
  "nextAddr (NewLRUCache config) = 0"
  by (simp_all add: NewLRUCache_def)

lemma nextAddr_Set_push: "nextAddr (Set_push c k v now) = Suc (nextAddr c)"
  by (simp add: Set_push_def Let_def)

lemma Set_new_fits:
  assumes "values' c k = None" and "Len (queue c) + 1 \<le> maxSize c"
  shows "Set c k v now = Inr (Set_push c k v now)"
  using assms by (simp add: Set_def Set_insert_def Let_def Len_def queue_Set_push)

section \<open>The order of recency\<close>

lemma lastTouch_snoc:
  "lastTouch (xs @ [x]) k = (if touched x = Some k then Suc (length xs) else lastTouch xs k)"
  by (induction xs) auto

lemma lastTouch_le: "lastTouch xs k \<le> length xs"
  by (induction xs) auto

lemma sorted_wrt_remove1: "sorted_wrt P xs \<Longrightarrow> sorted_wrt P (remove1 x xs)"
  by (induction xs) (auto dest: notin_set_remove1)

lemma recency_untouched:
  assumes "recency_ordered ops c" and "queue c' = queue c"
    and "\<forall>e \<in> set (queue c). touched x \<noteq> Some (key (Value e))"
  shows "recency_ordered (ops @ [x]) c'"
proof -
  from assms(3) have "lastTouch (ops @ [x]) (key (Value e)) = lastTouch ops (key (Value e))"
    if "e \<in> set (queue c)" for e
    using that by (auto simp: lastTouch_snoc)
  then have "sorted_wrt (\<lambda>a b. lastTouch (ops @ [x]) (key (Value b)) < lastTouch (ops @ [x]) (key (Value a))) (queue c)
      = sorted_wrt (\<lambda>a b. lastTouch ops (key (Value b)) < lastTouch ops (key (Value a))) (queue c)"
    by (auto simp: sorted_wrt_iff_nth_less)
  with assms(1,2) show ?thesis by (simp add: recency_ordered_def)
qed

lemma recency_remove1:
  assumes "recency_ordered ops c" and "queue c' = remove1 e (queue c)"
  shows "recency_ordered ops c'"
  using assms by (simp add: recency_ordered_def sorted_wrt_remove1)

lemma recency_filter:
  assumes "recency_ordered ops c" and "queue c' = filter P (queue c)"
  shows "recency_ordered ops c'"
  using assms by (simp add: recency_ordered_def sorted_wrt_filter)

lemma recency_touch:
  assumes o: "recency_ordered ops c" and t: "touched x = Some k"
    and q: "queue c' = e # q'" and e: "key (Value e) = k"
    and s: "sorted_wrt (\<lambda>a b. lastTouch ops (key (Value b)) < lastTouch ops (key (Value a))) q'"
    and n: "\<forall>a \<in> set q'. key (Value a) \<noteq> k"
  shows "recency_ordered (ops @ [x]) c'"
proof -
  let ?R = "\<lambda>os a b. lastTouch os (key (Value b)) < lastTouch os (key (Value a))"
  from n t have same: "lastTouch (ops @ [x]) (key (Value a)) = lastTouch ops (key (Value a))"
    if "a \<in> set q'" for a
    using that by (auto simp: lastTouch_snoc)
  then have "sorted_wrt (?R (ops @ [x])) q' = sorted_wrt (?R ops) q'"
    by (auto simp: sorted_wrt_iff_nth_less)
  with s have 1: "sorted_wrt (?R (ops @ [x])) q'" by simp
  have "lastTouch (ops @ [x]) (key (Value a)) < lastTouch (ops @ [x]) (key (Value e))"
    if "a \<in> set q'" for a
  proof -
    have "lastTouch ops (key (Value a)) \<le> length ops" by (rule lastTouch_le)
    with same [OF that] e t show ?thesis by (simp add: lastTouch_snoc)
  qed
  with 1 q show ?thesis by (simp add: recency_ordered_def)
qed

lemma recency_MoveToFront:
  assumes c: "consistent c" and o: "recency_ordered ops c" and t: "touched x = Some k"
    and f: "values' c k = Some cv" and q: "queue c' = MoveToFront (queue c) (link cv)"
  shows "recency_ordered (ops @ [x]) c'"
proof -
  from consistent_link [OF c f] have l: "link cv \<in> set (queue c)" "key (Value (link cv)) = k"
    by auto
  from c have d: "distinct (map (\<lambda>e. key (Value e)) (queue c))" by (simp add: consistent_def)
  from remove1_filter_key [OF d l(1)] l(2)
  have r: "remove1 (link cv) (queue c) = filter (\<lambda>e. key (Value e) \<noteq> k) (queue c)" by simp
  from q l have q': "queue c' = link cv # remove1 (link cv) (queue c)"
    by (simp add: MoveToFront_def)
  from o have "sorted_wrt (\<lambda>a b. lastTouch ops (key (Value b)) < lastTouch ops (key (Value a)))
      (remove1 (link cv) (queue c))"
    by (simp add: recency_ordered_def sorted_wrt_remove1)
  moreover have "\<forall>a \<in> set (remove1 (link cv) (queue c)). key (Value a) \<noteq> k"
    unfolding r by simp
  ultimately show ?thesis using recency_touch [OF o t q' l(2)] by blast
qed

lemma recency_Set_push:
  assumes c: "consistent c" and o: "recency_ordered ops c" and n: "values' c k = None"
  shows "recency_ordered (ops @ [OpSet k v now]) (Set_push c k v now)"
proof -
  have "\<forall>a \<in> set (queue c). key (Value a) \<noteq> k"
    using consistent_one_key [OF c] n by auto
  moreover from o have "sorted_wrt (\<lambda>a b. lastTouch ops (key (Value b)) < lastTouch ops (key (Value a)))
      (queue c)" by (simp add: recency_ordered_def)
  ultimately show ?thesis
    using recency_touch [OF o, of "OpSet k v now" k "Set_push c k v now" _ "queue c"]
    by (simp add: queue_Set_push)
qed

lemma reaches_recency: "reaches config ops c \<Longrightarrow> recency_ordered ops c"
proof (induction rule: reaches.induct)
  case (reaches_New config)
  show ?case by (simp add: recency_ordered_def New_fields)
next
  case (reaches_Get config ops c k)
  from reaches_Get.hyps have c: "consistent c" by (rule reaches_consistent)
  show ?case
  proof (cases "values' c k")
    case None
    then have "fst (Get c k) = c" by (simp add: Get_def)
    moreover have "\<forall>e \<in> set (queue c). touched (OpGet k) \<noteq> Some (key (Value e))"
      using consistent_one_key [OF c] None by auto
    ultimately show ?thesis using recency_untouched [OF reaches_Get.IH] by simp
  next
    case (Some cv)
    then have "queue (fst (Get c k)) = MoveToFront (queue c) (link cv)" by (simp add: Get_def)
    from recency_MoveToFront [OF c reaches_Get.IH _ Some this, of "OpGet k"] show ?thesis by simp
  qed
next
  case (reaches_Set config ops c k v now c')
  from reaches_Set.hyps(1) have c: "consistent c" by (rule reaches_consistent)
  show ?case
  proof (cases "values' c k")
    case (Some found)
    with reaches_Set.hyps(2) have "c' = Set_update c k found v" by (simp add: Set_def)
    then have "queue c' = MoveToFront (queue c) (link found)" by (simp add: Set_update_def)
    from recency_MoveToFront [OF c reaches_Set.IH _ Some this, of "OpSet k v now"]
    show ?thesis by simp
  next
    case None
    from recency_Set_push [OF c reaches_Set.IH None]
    have p: "recency_ordered (ops @ [OpSet k v now]) (Set_push c k v now)" .
    from None reaches_Set.hyps(2) have "Set_insert c k v now = Inr c'" by (simp add: Set_def)
    from Set_insert_cases [OF this] p show ?thesis
      by (auto intro: recency_remove1 [OF p])
  qed
next
  case (reaches_Delete config ops c k)
  have u: "recency_ordered (ops @ [OpDelete k]) c"
    using recency_untouched [OF reaches_Delete.IH, of c "OpDelete k"] by simp
  show ?case
  proof (cases "values' c k")
    case None
    with u show ?thesis by (simp add: Delete_def)
  next
    case (Some cv)
    then have "queue (Delete c k) = remove1 (link cv) (queue c)" by (simp add: Delete_def)
    from recency_remove1 [OF u this] show ?thesis .
  qed
next
  case (reaches_Clean config ops c)
  show ?case by (simp add: recency_ordered_def Clean_def)
next
  case (reaches_Sweep config ops c ks now)
  from reaches_Sweep.hyps(1) have c: "consistent c" by (rule reaches_consistent)
  have u: "recency_ordered (ops @ [OpSweep now ks]) c"
    using recency_untouched [OF reaches_Sweep.IH, of c "OpSweep now ks"] by simp
  have "queue (cleanInterval c now ks) = queue (fst (cleanLoop c now ks 0))"
    by (cases "cleanLoop c now ks 0") (simp add: cleanInterval_def)
  with queue_cleanLoop [OF c, of now ks 0] recency_filter [OF u] show ?case by simp
qed

lemma evicted_least_recent:
  assumes r: "reaches config ops c" and n: "values' c k = None"
    and f: "Size (Set_push c k v now) > maxSize c"
  shows "\<exists>c' kb. Set c k v now = Inr c' \<and>
           kb \<in> dom (values' (Set_push c k v now)) \<and>
           values' c' = (values' (Set_push c k v now))(kb := None) \<and>
           queue c' = butlast (queue (Set_push c k v now)) \<and>
           (\<forall>k' \<in> dom (values' (Set_push c k v now)). k' \<noteq> kb \<longrightarrow>
              lastTouch (ops @ [OpSet k v now]) kb < lastTouch (ops @ [OpSet k v now]) k')"
proof -
  let ?p = "Set_push c k v now"
  let ?ops = "ops @ [OpSet k v now]"
  let ?kb = "key (Value (last (queue ?p)))"
  from r have c: "consistent c" by (rule reaches_consistent)
  have p: "consistent ?p" by (rule consistent_Set_push [OF c n])
  have o: "recency_ordered ?ops ?p" by (rule recency_Set_push [OF c reaches_recency [OF r] n])
  have ne: "queue ?p \<noteq> []" by (simp add: queue_Set_push)
  from n f Set_insert_result [OF c n, of v now]
  have s: "Set c k v now = Inr (?p\<lparr>queue := butlast (queue ?p),
      values' := (values' ?p)(?kb := None)\<rparr>)"
    by (simp add: Set_def Size_def)
  from ne have "last (queue ?p) \<in> set (queue ?p)" by simp
  from consistent_one_key [OF p this] have kb: "?kb \<in> dom (values' ?p)" .
  have least: "lastTouch ?ops ?kb < lastTouch ?ops k'"
    if k': "k' \<in> dom (values' ?p)" "k' \<noteq> ?kb" for k'
  proof -
    from consistent_one_node [OF p k'(1)] obtain e where
      e: "e \<in> set (queue ?p)" "key (Value e) = k'" by blast
    with k'(2) have "e \<noteq> last (queue ?p)" by auto
    with e(1) ne have "e \<in> set (butlast (queue ?p))"
      by (metis append_butlast_last_id in_set_butlast_appendI insert_iff list.set(2)
          set_append empty_iff empty_set Un_iff)
    moreover from o ne have "sorted_wrt (\<lambda>a b. lastTouch ?ops (key (Value b)) < lastTouch ?ops (key (Value a)))
        (butlast (queue ?p) @ [last (queue ?p)])"
      by (simp add: recency_ordered_def)
    ultimately show ?thesis using e(2) by (auto simp: sorted_wrt_append)
  qed
  from s kb least show ?thesis by auto
qed

lemma snd_Get: "snd (Get c k) = map_option data (values' c k)"
  by (simp add: Get_def split: option.splits)

lemma scenario_evicts_B:
  assumes m: "ConfigBuilder.maxSize config = 2" and d: "distinct [A, B, C]"
  shows "\<exists>c1 c2 c3 c4.
           Set (NewLRUCache config) A va t1 = Inr c1 \<and>
           Set c1 B vb t2 = Inr c2 \<and>
           Get c2 A = (c3, Some va) \<and>
           Set c3 C vc t3 = Inr c4 \<and>
           snd (Get c4 A) = Some va \<and> snd (Get c4 B) = None \<and> snd (Get c4 C) = Some vc \<and>
           Size c4 = 2"
proof -
  let ?c0 = "NewLRUCache config :: ('a, 'b) LRUCache"
  let ?c1 = "Set_push ?c0 A va t1"
  let ?c2 = "Set_push ?c1 B vb t2"
  let ?ea = "\<lparr>addr = 0, Value = \<lparr>key = A, ttl = t1 + ConfigBuilder.defaultTTL config\<rparr>\<rparr>"
  let ?eb = "\<lparr>addr = Suc 0, Value = \<lparr>key = B, ttl = t2 + ConfigBuilder.defaultTTL config\<rparr>\<rparr>"
  let ?ec = "\<lparr>addr = Suc (Suc 0), Value = \<lparr>key = C, ttl = t3 + ConfigBuilder.defaultTTL config\<rparr>\<rparr>"
  let ?c3 = "?c2\<lparr>queue := [?ea, ?eb]\<rparr>"
  let ?p = "Set_push ?c3 C vc t3"
  let ?c4 = "unsafeDelete ?p B \<lparr>data = vb, link = ?eb\<rparr>"
  from d have ne: "A \<noteq> B" "A \<noteq> C" "B \<noteq> C" "B \<noteq> A" "C \<noteq> A" "C \<noteq> B" by auto
  have s1: "Set ?c0 A va t1 = Inr ?c1"
    by (rule Set_new_fits) (simp_all add: New_fields m Len_def)
  have q1: "queue ?c1 = [?ea]" by (simp add: queue_Set_push New_fields)
  have v1: "values' ?c1 = [A \<mapsto> \<lparr>data = va, link = ?ea\<rparr>]"
    by (simp add: values_Set_push New_fields)
  have s2: "Set ?c1 B vb t2 = Inr ?c2"
    by (rule Set_new_fits) (simp_all add: v1 q1 ne New_fields m Len_def)
  have q2: "queue ?c2 = [?eb, ?ea]"
    by (simp add: queue_Set_push nextAddr_Set_push New_fields)
  have v2: "values' ?c2 = [A \<mapsto> \<lparr>data = va, link = ?ea\<rparr>, B \<mapsto> \<lparr>data = vb, link = ?eb\<rparr>]"
    by (simp add: values_Set_push nextAddr_Set_push New_fields)
  have g3: "Get ?c2 A = (?c3, Some va)"
    by (simp add: Get_def v2 q2 ne MoveToFront_def)
  have v3: "values' ?c3 = values' ?c2" "maxSize ?c3 = 2" "nextAddr ?c3 = Suc (Suc 0)"
    "defaultTTL ?c3 = ConfigBuilder.defaultTTL config"
    by (simp_all add: nextAddr_Set_push New_fields m)
  have qp: "queue ?p = [?ec, ?ea, ?eb]"
    by (simp add: queue_Set_push nextAddr_Set_push New_fields)
  have vp: "values' ?p = [A \<mapsto> \<lparr>data = va, link = ?ea\<rparr>, B \<mapsto> \<lparr>data = vb, link = ?eb\<rparr>,
      C \<mapsto> \<lparr>data = vc, link = ?ec\<rparr>]"
    by (simp add: values_Set_push nextAddr_Set_push New_fields)
  have s4: "Set ?c3 C vc t3 = Inr ?c4"
    by (simp add: Set_def Set_insert_def Let_def v2 ne qp vp Len_def Back_def New_fields m)
  have v4: "values' ?c4 = [A \<mapsto> \<lparr>data = va, link = ?ea\<rparr>, C \<mapsto> \<lparr>data = vc, link = ?ec\<rparr>]"
    by (auto simp add: vp ne fun_eq_iff)
  have q4: "queue ?c4 = [?ec, ?ea]" by (simp add: qp ne)
  have "snd (Get ?c4 A) = Some va" "snd (Get ?c4 B) = None" "snd (Get ?c4 C) = Some vc"
    unfolding snd_Get v4 by (simp_all add: ne)
  moreover have "Size ?c4 = 2" unfolding Size_def q4 by (simp add: Len_def)
  ultimately show ?thesis using s1 s2 g3 s4 by blast
qed

section \<open>Concurrent callers\<close>

text \<open>A caller that runs alone does what the sequential operation does.\<close>

lemma alone_Get: "interleave c [Get_lookup k] [(0, t), (0, t')] = Inr (fst (Get c k), [Done])"
  by (simp add: Get_def split: option.splits)

lemma alone_Set:
  "interleave c [Set_check k v] [(0, t), (0, now)] =
     (case Set c k v now of Inl e \<Rightarrow> Inl e | Inr c' \<Rightarrow> Inr (c', [Done]))"
  by (simp add: Set_def split: option.splits sum.splits)

lemma alone_Delete:
  "interleave c [Delete_lookup k] [(0, t), (0, t'), (0, t'')] = Inr (Delete c k, [Done])"
  by (simp add: Delete_def split: option.splits)

lemma alone_Sweep:
  "interleave c [Sweep_scan now ks] [(0, t), (0, t')] = Inr (cleanInterval c now ks, [Done])"
  by (simp add: cleanInterval_def split: prod.splits)

lemma concurrent_Set_not_consistent:
  "\<not> consistent (Set_push (Set_push (NewLRUCache Configuration) ''a'' (1::int) 0) ''a'' 2 0)"
  by (simp add: consistent_def queue_Set_push)

text \<open>
  With capacity 1 the same schedule removes the wrong node, and the next Set of a new key
  dereferences nil.
\<close>

lemma concurrent_Set_then_panic:
  "interleave (NewLRUCache (SetMaxSize Configuration 1))
     [Set_check ''a'' (1::int), Set_check ''a'' 2, Set_check ''b'' 3]
     [(0, 0), (1, 0), (0, 0), (1, 0), (2, 0), (2, 0)] = Inl NilDereference"
proof -
  let ?cfg = "SetMaxSize Configuration 1"
  let ?c0 = "NewLRUCache ?cfg :: (string, int) LRUCache"
  let ?c1 = "Set_push ?c0 ''a'' 1 0"
  let ?p2 = "Set_push ?c1 ''a'' 2 0"
  let ?e0 = "\<lparr>addr = 0, Value = \<lparr>key = ''a'', ttl = - 1\<rparr>\<rparr>"
  let ?e1 = "\<lparr>addr = Suc 0, Value = \<lparr>key = ''a'', ttl = - 1\<rparr>\<rparr>"
  let ?c2 = "unsafeDelete ?p2 ''a'' \<lparr>data = 2, link = ?e1\<rparr>"
  have cfg: "ConfigBuilder.maxSize ?cfg = 1" "ConfigBuilder.defaultTTL ?cfg = - 1"
    by (simp_all add: SetMaxSize_def Configuration_def)
  have i1: "Set_insert ?c0 ''a'' 1 0 = Inr ?c1"
    by (simp add: Set_insert_def Let_def Len_def queue_Set_push New_fields cfg)
  have i2: "Set_insert ?c1 ''a'' 2 0 = Inr ?c2"
    by (simp add: Set_insert_def Let_def Len_def Back_def queue_Set_push values_Set_push
        nextAddr_Set_push New_fields cfg)
  have q2: "queue ?c2 = [?e0]" "values' ?c2 = Map.empty"
    by (simp_all add: queue_Set_push values_Set_push nextAddr_Set_push New_fields cfg)
  have i3: "Set_insert ?c2 ''b'' 3 0 = Inl NilDereference"
    by (simp add: Set_insert_def Let_def Len_def Back_def queue_Set_push values_Set_push
        q2 New_fields cfg)
  show ?thesis
    by (simp add: i1 i2 i3 values_Set_push New_fields)
qed

section \<open>The properties of the specification\<close>

subsection \<open>C1: Set keeps the size within maxSize and evicts at most the back node\<close>

text \<open>
  C1. In every state the cache reaches, a \<^verbatim>\<open>Set\<close> returns and leaves at most \<open>maxSize\<close>
  entries, in the queue and in the map, when \<open>maxSize\<close> is not negative (and none when it is
  negative). On a stored key it evicts nothing. On a new key it evicts nothing when the
  queue after the insertion is not longer than \<open>maxSize\<close>; when it is longer, the one node
  at the back of that queue goes, with the map entry of its key, and nothing else.
\<close>

theorem Set_respects_maxSize:
  assumes r: "reaches config ops c"
  shows "\<exists>c'. Set c k v now = Inr c' \<and>
           maxSize c' = maxSize c \<and>
           Size c' \<le> max 0 (maxSize c) \<and>
           int (card (dom (values' c'))) \<le> max 0 (maxSize c) \<and>
           (0 \<le> maxSize c \<longrightarrow>
              Size c' \<le> maxSize c \<and> int (card (dom (values' c'))) \<le> maxSize c) \<and>
           (values' c k \<noteq> None \<longrightarrow>
              dom (values' c') = dom (values' c) \<and> set (queue c') = set (queue c)) \<and>
           (values' c k = None \<and> Size (Set_push c k v now) \<le> maxSize c \<longrightarrow>
              c' = Set_push c k v now) \<and>
           (values' c k = None \<and> Size (Set_push c k v now) > maxSize c \<longrightarrow>
              queue c' = butlast (queue (Set_push c k v now)) \<and>
              values' c' = (values' (Set_push c k v now))
                 (key (Value (last (queue (Set_push c k v now)))) := None))"
proof -
  from r have c: "consistent c" by (rule reaches_consistent)
  from Set_consistent [OF c, of k v now] obtain c' where
    s: "Set c k v now = Inr c'" and c': "consistent c'" by blast
  from r s have "reaches config (ops @ [OpSet k v now]) c'" by (rule reaches_Set)
  from reaches_bounded [OF this] have "Size c' \<le> max 0 (maxSize c')" by (simp add: Size_def)
  moreover from config_Set [OF s] have mx: "maxSize c' = maxSize c" by simp
  ultimately have b: "Size c' \<le> max 0 (maxSize c)" by simp
  with consistent_Size [OF c'] have cb: "int (card (dom (values' c'))) \<le> max 0 (maxSize c)"
    by simp
  from b cb have p: "Size c' \<le> maxSize c \<and> int (card (dom (values' c'))) \<le> maxSize c"
    if "0 \<le> maxSize c" using that by simp
  have u: "dom (values' c') = dom (values' c) \<and> set (queue c') = set (queue c)"
    if "values' c k \<noteq> None"
  proof -
    from that obtain found where "values' c k = Some found" by auto
    with s have "c' = Set_update c k found v" by (simp add: Set_def)
    with \<open>values' c k = Some found\<close> show ?thesis by (auto simp: Set_update_def)
  qed
  have i: "Set_insert c k v now = Inr c'" if "values' c k = None"
    using s that by (simp add: Set_def)
  have n1: "c' = Set_push c k v now"
    if "values' c k = None \<and> Size (Set_push c k v now) \<le> maxSize c"
    using that i Set_insert_result [OF c, of k v now] by (simp add: Size_def)
  have n2: "queue c' = butlast (queue (Set_push c k v now)) \<and>
      values' c' = (values' (Set_push c k v now))
         (key (Value (last (queue (Set_push c k v now)))) := None)"
    if "values' c k = None \<and> Size (Set_push c k v now) > maxSize c"
    using that i Set_insert_result [OF c, of k v now] by (auto simp: Size_def)
  from s mx b cb p u n1 n2 show ?thesis by blast
qed

theorem Set_respects_maxSize_witness:
  "reaches (SetMaxSize Configuration 1) [OpSet ''a'' (1::nat) 0]
     (Set_push (NewLRUCache (SetMaxSize Configuration 1)) ''a'' 1 0) \<and>
   0 \<le> maxSize (Set_push (NewLRUCache (SetMaxSize Configuration 1)) ''a'' (1::nat) 0) \<and>
   (\<exists>c'. Set (Set_push (NewLRUCache (SetMaxSize Configuration 1)) ''a'' (1::nat) 0) ''b'' 2 5 = Inr c' \<and>
      Size c' \<le> 1 \<and> dom (values' c') = {''b''})"
proof -
  let ?cfg = "SetMaxSize Configuration 1"
  let ?c0 = "NewLRUCache ?cfg :: (string, nat) LRUCache"
  let ?c1 = "Set_push ?c0 ''a'' 1 0"
  have n: "values' ?c0 ''a'' = None" by (simp add: NewLRUCache_def)
  have "Set ?c0 ''a'' 1 0 = Inr ?c1"
    using Set_insert_result [OF consistent_New n, of 1 0] n
    by (simp add: Set_def Len_def queue_Set_push NewLRUCache_def SetMaxSize_def)
  from reaches_Set [OF reaches_New this] have r: "reaches ?cfg [OpSet ''a'' 1 0] ?c1" by simp
  have mx: "maxSize ?c1 = 1" by (simp add: NewLRUCache_def SetMaxSize_def)
  then have m: "0 \<le> maxSize ?c1" by simp
  from Set_respects_maxSize [OF r, of "''b''" 2 5] obtain c' where
    c': "Set ?c1 ''b'' 2 5 = Inr c'"
      "0 \<le> maxSize ?c1 \<longrightarrow> Size c' \<le> maxSize ?c1"
      "values' ?c1 ''b'' = None \<and> Size (Set_push ?c1 ''b'' 2 5) > maxSize ?c1 \<longrightarrow>
              values' c' = (values' (Set_push ?c1 ''b'' 2 5))
                 (key (Value (last (queue (Set_push ?c1 ''b'' 2 5)))) := None)"
    by blast
  from c'(2) m mx have sz: "Size c' \<le> 1" by simp
  have "values' ?c1 ''b'' = None" by (simp add: values_Set_push NewLRUCache_def)
  moreover have "Size (Set_push ?c1 ''b'' 2 5) > maxSize ?c1"
    by (simp add: Size_def Len_def queue_Set_push NewLRUCache_def SetMaxSize_def)
  ultimately have "dom (values' c') = {''b''}"
    using c'(3) by (auto simp add: values_Set_push queue_Set_push NewLRUCache_def)
  with r m c'(1) sz show ?thesis by blast
qed

subsection \<open>C2: the evicted key is the least recently touched\<close>

text \<open>
  C2. In every state the cache reaches by the calls \<open>ops\<close>, a \<^verbatim>\<open>Set\<close> of a new key that makes
  the queue longer than \<open>maxSize\<close> returns and evicts one key \<open>kb\<close> among the keys stored
  after the insertion: the one touched least recently, that is, every other stored key has
  a later last touch (by \<^verbatim>\<open>Get\<close> or \<^verbatim>\<open>Set\<close>) in the history. In particular, with capacity 2
  and three different keys: after \<^verbatim>\<open>Set\<close> of A, \<^verbatim>\<open>Set\<close> of B, \<^verbatim>\<open>Get\<close> of A and \<^verbatim>\<open>Set\<close> of
  C, \<^verbatim>\<open>Get\<close> finds A and C and does not find B.
\<close>

theorem eviction_is_least_recently_used:
  "(reaches config ops c \<and> values' c k = None \<and> Size (Set_push c k v now) > maxSize c \<longrightarrow>
      (\<exists>c' kb. Set c k v now = Inr c' \<and>
           kb \<in> dom (values' (Set_push c k v now)) \<and>
           values' c' = (values' (Set_push c k v now))(kb := None) \<and>
           queue c' = butlast (queue (Set_push c k v now)) \<and>
           (\<forall>k' \<in> dom (values' (Set_push c k v now)). k' \<noteq> kb \<longrightarrow>
              lastTouch (ops @ [OpSet k v now]) kb < lastTouch (ops @ [OpSet k v now]) k'))) \<and>
   (ConfigBuilder.maxSize config2 = 2 \<and> distinct [A, B, C] \<longrightarrow>
      (\<exists>c1 c2 c3 c4.
           Set (NewLRUCache config2) A va t1 = Inr c1 \<and>
           Set c1 B vb t2 = Inr c2 \<and>
           Get c2 A = (c3, Some va) \<and>
           Set c3 C vc t3 = Inr c4 \<and>
           snd (Get c4 A) = Some va \<and> snd (Get c4 B) = None \<and> snd (Get c4 C) = Some vc \<and>
           Size c4 = 2))"
  using evicted_least_recent [of config ops c k v now]
    scenario_evicts_B [of config2 A B C va t1 vb t2 vc t3]
  by blast

theorem eviction_is_least_recently_used_witness:
  "reaches (SetMaxSize Configuration 2) [OpSet ''A'' (1::int) 0, OpSet ''B'' 2 1, OpGet ''A'']
     (fst (Get (Set_push (Set_push (NewLRUCache (SetMaxSize Configuration 2)) ''A'' 1 0) ''B'' 2 1) ''A'')) \<and>
   values' (fst (Get (Set_push (Set_push (NewLRUCache (SetMaxSize Configuration 2)) ''A'' (1::int) 0)
       ''B'' 2 1) ''A'')) ''C'' = None \<and>
   Size (Set_push (fst (Get (Set_push (Set_push (NewLRUCache (SetMaxSize Configuration 2)) ''A'' (1::int) 0)
       ''B'' 2 1) ''A'')) ''C'' 3 2)
     > maxSize (fst (Get (Set_push (Set_push (NewLRUCache (SetMaxSize Configuration 2)) ''A'' (1::int) 0)
       ''B'' 2 1) ''A'')) \<and>
   (\<exists>c'. Set (fst (Get (Set_push (Set_push (NewLRUCache (SetMaxSize Configuration 2)) ''A'' (1::int) 0)
       ''B'' 2 1) ''A'')) ''C'' 3 2 = Inr c' \<and> dom (values' c') = {''A'', ''C''}) \<and>
   ConfigBuilder.maxSize (SetMaxSize Configuration 2) = 2 \<and>
   distinct [''A'', ''B'', ''C''] \<and>
   (\<exists>c1 c2 c3 c4.
      Set (NewLRUCache (SetMaxSize Configuration 2)) ''A'' (1::int) 0 = Inr c1 \<and>
      Set c1 ''B'' 2 1 = Inr c2 \<and>
      Get c2 ''A'' = (c3, Some 1) \<and>
      Set c3 ''C'' 3 2 = Inr c4 \<and>
      snd (Get c4 ''A'') = Some 1 \<and> snd (Get c4 ''B'') = None \<and> snd (Get c4 ''C'') = Some 3 \<and>
      Size c4 = 2)"
proof -
  let ?cfg = "SetMaxSize Configuration 2"
  let ?c0 = "NewLRUCache ?cfg :: (string, int) LRUCache"
  let ?c1 = "Set_push ?c0 ''A'' 1 0"
  let ?c2 = "Set_push ?c1 ''B'' 2 1"
  let ?c3 = "fst (Get ?c2 ''A'')"
  let ?p = "Set_push ?c3 ''C'' 3 2"
  let ?ops = "[OpSet ''A'' (1::int) 0, OpSet ''B'' 2 1, OpGet ''A'']"
  have m: "ConfigBuilder.maxSize ?cfg = 2" by (simp add: SetMaxSize_def)
  have d: "distinct [''A'', ''B'', ''C'']" by simp
  have s1: "Set ?c0 ''A'' 1 0 = Inr ?c1"
    by (rule Set_new_fits) (simp_all add: New_fields m Len_def)
  have s2: "Set ?c1 ''B'' 2 1 = Inr ?c2"
    by (rule Set_new_fits) (simp_all add: values_Set_push queue_Set_push New_fields m Len_def)
  from reaches_Get [OF reaches_Set [OF reaches_Set [OF reaches_New s1] s2], of "''A''"]
  have r: "reaches ?cfg ?ops ?c3" by simp
  have v3: "values' ?c3 = values' ?c2" by simp
  have n: "values' ?c3 ''C'' = None"
    unfolding v3 by (simp add: values_Set_push New_fields)
  have "length (queue ?c3) = 2"
    by (simp add: Get_def values_Set_push queue_Set_push New_fields)
  then have f: "Size ?p > maxSize ?c3"
    by (simp add: Size_def Len_def queue_Set_push New_fields m)
  have dp: "dom (values' ?p) = {''A'', ''B'', ''C''}"
    unfolding values_Set_push v3 by (auto simp: New_fields)
  have lt: "lastTouch (?ops @ [OpSet ''C'' 3 2]) ''A'' = 3"
    "lastTouch (?ops @ [OpSet ''C'' 3 2]) ''B'' = 2"
    "lastTouch (?ops @ [OpSet ''C'' 3 2]) ''C'' = 4"
    by simp_all
  from r n f have h1: "reaches ?cfg ?ops ?c3 \<and> values' ?c3 ''C'' = None \<and> Size ?p > maxSize ?c3"
    by (intro conjI)
  from mp [OF eviction_is_least_recently_used [of ?cfg ?ops ?c3 "''C''" 3 2, THEN conjunct1] h1]
  obtain c' kb where c': "Set ?c3 ''C'' 3 2 = Inr c'"
    and kb: "kb \<in> dom (values' ?p)" and v': "values' c' = (values' ?p)(kb := None)"
    and least: "\<forall>k' \<in> dom (values' ?p). k' \<noteq> kb \<longrightarrow>
       lastTouch (?ops @ [OpSet ''C'' 3 2]) kb < lastTouch (?ops @ [OpSet ''C'' 3 2]) k'"
    by (elim exE conjE)
  from kb dp have "kb = ''A'' \<or> kb = ''B'' \<or> kb = ''C''" by simp
  moreover from least dp lt have "kb \<noteq> ''A''" "kb \<noteq> ''C''" by fastforce+
  ultimately have "kb = ''B''" by blast
  with v' dp have "dom (values' c') = {''A'', ''C''}" by auto
  with c' have e: "\<exists>c'. Set ?c3 ''C'' 3 2 = Inr c' \<and> dom (values' c') = {''A'', ''C''}" by blast
  from m d have h2: "ConfigBuilder.maxSize ?cfg = 2 \<and> distinct [''A'', ''B'', ''C'']"
    by (intro conjI)
  from mp [OF eviction_is_least_recently_used [where ?config2.0 = ?cfg and A = "''A''" and B = "''B''"
      and C = "''C''" and va = "1::int" and ?t1.0 = 0 and vb = "2::int" and ?t2.0 = 1 and vc = "3::int"
      and ?t3.0 = 2, THEN conjunct2] h2]
  have sc: "\<exists>c1 c2 c3 c4.
      Set ?c0 ''A'' 1 0 = Inr c1 \<and>
      Set c1 ''B'' 2 1 = Inr c2 \<and>
      Get c2 ''A'' = (c3, Some 1) \<and>
      Set c3 ''C'' 3 2 = Inr c4 \<and>
      snd (Get c4 ''A'') = Some 1 \<and> snd (Get c4 ''B'') = None \<and> snd (Get c4 ''C'') = Some 3 \<and>
      Size c4 = 2" .
  from r n f e m d sc show ?thesis by (simp only: simp_thms)
qed

subsection \<open>C3: expiry and Get\<close>

text \<open>
  C3 as stated fails: \<^verbatim>\<open>Get\<close> reads neither the clock nor the expiry. With a default TTL
  of 5, the entry set at time 0 expires at 5; at time 100 (another key is set then, with
  expiry 105), with no pass of the sweeper in between, \<^verbatim>\<open>Get\<close> still returns it.
\<close>

theorem Get_returns_entry_past_expiry:
  "Set (NewLRUCache (SetDefaultTTL Configuration 5)) ''a'' (1::int) 0 =
     Inr (Set_push (NewLRUCache (SetDefaultTTL Configuration 5)) ''a'' 1 0) \<and>
   Set (Set_push (NewLRUCache (SetDefaultTTL Configuration 5)) ''a'' (1::int) 0) ''b'' 2 100 =
     Inr (Set_push (Set_push (NewLRUCache (SetDefaultTTL Configuration 5)) ''a'' 1 0) ''b'' 2 100) \<and>
   map (\<lambda>e. (key (Value e), ttl (Value e)))
     (queue (Set_push (Set_push (NewLRUCache (SetDefaultTTL Configuration 5)) ''a'' (1::int) 0) ''b'' 2 100)) =
     [(''b'', 105), (''a'', 5)] \<and>
   snd (Get (Set_push (Set_push (NewLRUCache (SetDefaultTTL Configuration 5)) ''a'' (1::int) 0) ''b'' 2 100)
     ''a'') = Some 1"
proof -
  let ?cfg = "SetDefaultTTL Configuration 5"
  let ?c0 = "NewLRUCache ?cfg :: (string, int) LRUCache"
  let ?c1 = "Set_push ?c0 ''a'' 1 0"
  let ?c2 = "Set_push ?c1 ''b'' 2 100"
  let ?ea = "\<lparr>addr = 0, Value = \<lparr>key = ''a'', ttl = 5\<rparr>\<rparr>"
  let ?eb = "\<lparr>addr = 1, Value = \<lparr>key = ''b'', ttl = 105\<rparr>\<rparr>"
  have cfg: "ConfigBuilder.defaultTTL ?cfg = 5" "ConfigBuilder.maxSize ?cfg = 2147483646"
    by (simp_all add: SetDefaultTTL_def Configuration_def)
  have s1: "Set ?c0 ''a'' 1 0 = Inr ?c1"
    by (rule Set_new_fits) (simp_all add: New_fields cfg Len_def)
  have q1: "queue ?c1 = [?ea]" by (simp add: queue_Set_push New_fields cfg)
  have v1: "values' ?c1 = [''a'' \<mapsto> \<lparr>data = 1, link = ?ea\<rparr>]"
    by (simp add: values_Set_push New_fields cfg)
  have s2: "Set ?c1 ''b'' 2 100 = Inr ?c2"
    by (rule Set_new_fits) (simp_all add: v1 q1 New_fields cfg Len_def)
  have q2: "queue ?c2 = [?eb, ?ea]"
    by (simp add: queue_Set_push nextAddr_Set_push New_fields cfg)
  have v2: "values' ?c2 ''a'' = Some \<lparr>data = 1, link = ?ea\<rparr>"
    by (simp add: values_Set_push New_fields cfg)
  have "snd (Get ?c2 ''a'') = Some 1" by (simp add: Get_def v2)
  moreover have "map (\<lambda>e. (key (Value e), ttl (Value e))) (queue ?c2) = [(''b'', 105), (''a'', 5)]"
    by (simp add: q2)
  ultimately show ?thesis using s1 s2 by (simp only: simp_thms)
qed

text \<open>
  C3, as the code has it. A new key set at time \<open>T\<close> (in a cache with room for at least
  one entry, where the correspondence of store and queue holds) is stored with its value
  and the expiry \<open>T + defaultTTL\<close>. For an entry that is stored, \<^verbatim>\<open>Get\<close> returns its value,
  at whatever time it is called; after a pass of the sweeper at a time strictly after
  the expiry of the entry, \<^verbatim>\<open>Get\<close> returns not-found; after a pass at or before the expiry,
  \<^verbatim>\<open>Get\<close> still returns the value.
\<close>

theorem entry_reachable_until_swept:
  "(consistent c \<and> values' c k = None \<and> 1 \<le> maxSize c \<longrightarrow>
      (\<exists>c'. Set c k v T = Inr c' \<and> consistent c' \<and>
         map_option (\<lambda>x. (data x, ttl (Value (link x)))) (values' c' k) =
           Some (v, T + defaultTTL c))) \<and>
   (values' c k = Some cv \<longrightarrow>
      snd (Get c k) = Some (data cv) \<and>
      (\<forall>now ks. distinct ks \<and> set ks = dom (values' c) \<and> ttl (Value (link cv)) < now k \<longrightarrow>
         snd (Get (cleanInterval c now ks) k) = None) \<and>
      (\<forall>now ks. now k \<le> ttl (Value (link cv)) \<longrightarrow>
         snd (Get (cleanInterval c now ks) k) = Some (data cv)))"
proof -
  have a: "\<exists>c'. Set c k v T = Inr c' \<and> consistent c' \<and>
         map_option (\<lambda>x. (data x, ttl (Value (link x)))) (values' c' k) =
           Some (v, T + defaultTTL c)"
    if h: "consistent c \<and> values' c k = None \<and> 1 \<le> maxSize c"
  proof -
    let ?p = "Set_push c k v T"
    from h have c: "consistent c" and n: "values' c k = None" and m: "1 \<le> maxSize c" by auto
    from Set_consistent [OF c, of k v T] obtain c' where
      s: "Set c k v T = Inr c'" and c': "consistent c'" by blast
    from s n have i: "Set_insert c k v T = Inr c'" by (simp add: Set_def)
    have "values' c' k = values' ?p k"
    proof (cases "Len (queue ?p) > maxSize c")
      case False
      with i Set_insert_result [OF c n, of v T] show ?thesis by simp
    next
      case True
      with m have "queue c \<noteq> []" by (auto simp: Len_def queue_Set_push)
      then have "last (queue ?p) \<in> set (queue c)" by (simp add: queue_Set_push)
      from consistent_one_key [OF c this] n have "key (Value (last (queue ?p))) \<noteq> k" by auto
      with True i Set_insert_result [OF c n, of v T] show ?thesis by auto
    qed
    with s c' show ?thesis by (simp add: values_Set_push)
  qed
  have b: "snd (Get c k) = Some (data cv) \<and>
      (\<forall>now ks. distinct ks \<and> set ks = dom (values' c) \<and> ttl (Value (link cv)) < now k \<longrightarrow>
         snd (Get (cleanInterval c now ks) k) = None) \<and>
      (\<forall>now ks. now k \<le> ttl (Value (link cv)) \<longrightarrow>
         snd (Get (cleanInterval c now ks) k) = Some (data cv))"
    if f: "values' c k = Some cv"
  proof -
    from f have "snd (Get c k) = Some (data cv)" by (simp add: Get_def)
    moreover have "snd (Get (cleanInterval c now ks) k) = None"
      if "distinct ks \<and> set ks = dom (values' c) \<and> ttl (Value (link cv)) < now k" for now ks
    proof -
      from that f have "k \<in> set ks" "expired c now k" by (auto simp: expired_def)
      then have "values' (cleanInterval c now ks) k = None" by (simp add: values_cleanInterval)
      then show ?thesis by (simp add: Get_def)
    qed
    moreover have "snd (Get (cleanInterval c now ks) k) = Some (data cv)"
      if "now k \<le> ttl (Value (link cv))" for now ks
    proof -
      from that f have "\<not> expired c now k" by (simp add: expired_def)
      with f have "values' (cleanInterval c now ks) k = Some cv" by (simp add: values_cleanInterval)
      then show ?thesis by (simp add: Get_def)
    qed
    ultimately show ?thesis by blast
  qed
  from a b show ?thesis by blast
qed

theorem entry_reachable_until_swept_witness:
  "consistent (NewLRUCache (SetDefaultTTL Configuration 5) :: (string, int) LRUCache) \<and>
   values' (NewLRUCache (SetDefaultTTL Configuration 5) :: (string, int) LRUCache) ''a'' = None \<and>
   1 \<le> maxSize (NewLRUCache (SetDefaultTTL Configuration 5) :: (string, int) LRUCache) \<and>
   (\<exists>c'. Set (NewLRUCache (SetDefaultTTL Configuration 5)) ''a'' (1::int) 0 = Inr c' \<and>
      map_option (\<lambda>x. (data x, ttl (Value (link x)))) (values' c' ''a'') = Some (1, 5)) \<and>
   values' (Set_push (NewLRUCache (SetDefaultTTL Configuration 5)) ''a'' (1::int) 0) ''a'' =
     Some \<lparr>data = 1, link = \<lparr>addr = 0, Value = \<lparr>key = ''a'', ttl = 5\<rparr>\<rparr>\<rparr> \<and>
   distinct [''a''] \<and>
   set [''a''] = dom (values' (Set_push (NewLRUCache (SetDefaultTTL Configuration 5)) ''a'' (1::int) 0)) \<and>
   snd (Get (cleanInterval (Set_push (NewLRUCache (SetDefaultTTL Configuration 5)) ''a'' (1::int) 0)
     (\<lambda>_. 6) [''a'']) ''a'') = None \<and>
   snd (Get (cleanInterval (Set_push (NewLRUCache (SetDefaultTTL Configuration 5)) ''a'' (1::int) 0)
     (\<lambda>_. 5) [''a'']) ''a'') = Some 1"
proof -
  let ?cfg = "SetDefaultTTL Configuration 5"
  let ?c0 = "NewLRUCache ?cfg :: (string, int) LRUCache"
  let ?c1 = "Set_push ?c0 ''a'' 1 0"
  let ?ea = "\<lparr>addr = 0, Value = \<lparr>key = ''a'', ttl = 5\<rparr>\<rparr>"
  let ?cv = "\<lparr>data = 1::int, link = ?ea\<rparr>"
  have cfg: "ConfigBuilder.defaultTTL ?cfg = 5" "ConfigBuilder.maxSize ?cfg = 2147483646"
    by (simp_all add: SetDefaultTTL_def Configuration_def)
  have h0: "consistent ?c0" by (rule consistent_New)
  have n0: "values' ?c0 ''a'' = None" by (simp add: New_fields)
  have m0: "1 \<le> maxSize ?c0" by (simp add: New_fields cfg)
  from entry_reachable_until_swept [of ?c0 "''a''" 1 0] h0 n0 m0
  have a: "\<exists>c'. Set ?c0 ''a'' 1 0 = Inr c' \<and>
      map_option (\<lambda>x. (data x, ttl (Value (link x)))) (values' c' ''a'') = Some (1, 5)"
    by (auto simp: New_fields cfg)
  have v1: "values' ?c1 ''a'' = Some ?cv" by (simp add: values_Set_push New_fields cfg)
  have d: "distinct [''a'']" by simp
  have s: "set [''a''] = dom (values' ?c1)" by (simp add: values_Set_push New_fields)
  from entry_reachable_until_swept [of ?c1 "''a''" _ _ ?cv] v1
  have b: "\<forall>now ks. distinct ks \<and> set ks = dom (values' ?c1) \<and> ttl (Value (link ?cv)) < now ''a'' \<longrightarrow>
         snd (Get (cleanInterval ?c1 now ks) ''a'') = None"
    and b': "\<forall>now ks. now ''a'' \<le> ttl (Value (link ?cv)) \<longrightarrow>
         snd (Get (cleanInterval ?c1 now ks) ''a'') = Some (data ?cv)"
    by blast+
  from b d s have g6: "snd (Get (cleanInterval ?c1 (\<lambda>_. 6) [''a'']) ''a'') = None" by simp
  from b' have g5: "snd (Get (cleanInterval ?c1 (\<lambda>_. 5) [''a'']) ''a'') = Some 1" by simp
  from h0 n0 m0 a v1 d s g6 g5 show ?thesis by (simp only: simp_thms)
qed

subsection \<open>C4: one pass of the sweeper\<close>

text \<open>
  C4 as stated fails at the boundary. With a default TTL of 5, an entry set at time 0
  expires at 5; the pass at time 5 keeps it and reports 0 removals.
\<close>

theorem sweep_keeps_entry_expiring_now:
  "Set (NewLRUCache (SetDeleteCallback (SetDefaultTTL Configuration 5) True)) ''a'' (1::int) 0 =
     Inr (Set_push (NewLRUCache (SetDeleteCallback (SetDefaultTTL Configuration 5) True)) ''a'' 1 0) \<and>
   queue (Set_push (NewLRUCache (SetDeleteCallback (SetDefaultTTL Configuration 5) True)) ''a'' (1::int) 0) =
     [\<lparr>addr = 0, Value = \<lparr>key = ''a'', ttl = 5\<rparr>\<rparr>] \<and>
   values' (cleanInterval
       (Set_push (NewLRUCache (SetDeleteCallback (SetDefaultTTL Configuration 5) True)) ''a'' (1::int) 0)
       (\<lambda>_. 5) [''a'']) ''a'' =
     Some \<lparr>data = 1, link = \<lparr>addr = 0, Value = \<lparr>key = ''a'', ttl = 5\<rparr>\<rparr>\<rparr> \<and>
   queue (cleanInterval
       (Set_push (NewLRUCache (SetDeleteCallback (SetDefaultTTL Configuration 5) True)) ''a'' (1::int) 0)
       (\<lambda>_. 5) [''a'']) =
     [\<lparr>addr = 0, Value = \<lparr>key = ''a'', ttl = 5\<rparr>\<rparr>] \<and>
   notified (cleanInterval
       (Set_push (NewLRUCache (SetDeleteCallback (SetDefaultTTL Configuration 5) True)) ''a'' (1::int) 0)
       (\<lambda>_. 5) [''a'']) = [0]"
proof -
  let ?cfg = "SetDeleteCallback (SetDefaultTTL Configuration 5) True"
  let ?c0 = "NewLRUCache ?cfg :: (string, int) LRUCache"
  let ?c1 = "Set_push ?c0 ''a'' 1 0"
  let ?ea = "\<lparr>addr = 0, Value = \<lparr>key = ''a'', ttl = 5\<rparr>\<rparr>"
  have cfg: "ConfigBuilder.defaultTTL ?cfg = 5" "ConfigBuilder.deleteCallback ?cfg"
    "ConfigBuilder.maxSize ?cfg = 2147483646"
    by (simp_all add: SetDeleteCallback_def SetDefaultTTL_def Configuration_def)
  have s1: "Set ?c0 ''a'' 1 0 = Inr ?c1"
    by (rule Set_new_fits) (simp_all add: New_fields cfg Len_def)
  have q1: "queue ?c1 = [?ea]" by (simp add: queue_Set_push New_fields cfg)
  have v1: "values' ?c1 = [''a'' \<mapsto> \<lparr>data = 1, link = ?ea\<rparr>]"
    by (simp add: values_Set_push New_fields cfg)
  have l: "cleanLoop ?c1 (\<lambda>_. 5) [''a''] 0 = (?c1, 0)" by (simp add: v1)
  have ci: "cleanInterval ?c1 (\<lambda>_. 5) [''a''] = notify ?c1 0"
    by (simp only: cleanInterval_def l prod.case)
  have "deleteCallback ?c1" "notified ?c1 = []" by (simp_all add: New_fields cfg)
  then have n: "notified (cleanInterval ?c1 (\<lambda>_. 5) [''a'']) = [0]"
    by (simp add: ci notify_def)
  have "values' (cleanInterval ?c1 (\<lambda>_. 5) [''a'']) ''a'' = Some \<lparr>data = 1, link = ?ea\<rparr>"
    and "queue (cleanInterval ?c1 (\<lambda>_. 5) [''a'']) = [?ea]"
    by (simp_all add: ci v1 q1)
  with s1 q1 n show ?thesis by (simp only: simp_thms)
qed

text \<open>
  C4, as the code has it. One pass of the sweeper over a cache in which the correspondence
  of store and queue holds, ranging over every stored key once, removes exactly the
  entries whose expiry is strictly before the clock reading taken when the pass tests
  them, with their nodes; an entry whose expiry is that clock reading itself stays. After the scan the callback,
  when one is configured, is invoked once, with the number of entries removed.
\<close>

theorem sweep_removes_expired:
  assumes c: "consistent c" and d: "distinct ks" and s: "set ks = dom (values' c)"
  shows "values' (cleanInterval c now ks) = (\<lambda>k. if expired c now k then None else values' c k) \<and>
         queue (cleanInterval c now ks) = filter (\<lambda>e. \<not> ttl (Value e) < now (key (Value e))) (queue c) \<and>
         (\<forall>e \<in> set (queue c). expired c now (key (Value e)) = (ttl (Value e) < now (key (Value e)))) \<and>
         (deleteCallback c \<longrightarrow>
            notified (cleanInterval c now ks) = notified c @ [int (card {k. expired c now k})]) \<and>
         (\<not> deleteCallback c \<longrightarrow> notified (cleanInterval c now ks) = notified c)"
proof -
  obtain c' m where r: "cleanLoop c now ks 0 = (c', m)" by (cases "cleanLoop c now ks 0")
  have in_ks: "k \<in> set ks" if "expired c now k" for k
    using that s by (auto simp: expired_def split: option.splits)
  then have "values' (cleanInterval c now ks) = (\<lambda>k. if expired c now k then None else values' c k)"
    by (auto simp: values_cleanInterval fun_eq_iff)
  moreover have "queue (cleanInterval c now ks) = filter (\<lambda>e. \<not> ttl (Value e) < now (key (Value e))) (queue c)"
  proof -
    have "key (Value e) \<in> set ks" if "e \<in> set (queue c)" for e
      using consistent_one_key [OF c that] s by simp
    then have "filter (\<lambda>e. \<not> (key (Value e) \<in> set ks \<and> ttl (Value e) - now (key (Value e)) < 0)) (queue c)
        = filter (\<lambda>e. \<not> ttl (Value e) < now (key (Value e))) (queue c)"
      by (auto intro!: filter_cong)
    with queue_cleanLoop [OF c, of now ks 0] r show ?thesis
      by (simp add: cleanInterval_def)
  qed
  moreover have "\<forall>e \<in> set (queue c). expired c now (key (Value e)) = (ttl (Value e) < now (key (Value e)))"
    using expired_node [OF c] by auto
  moreover have m: "m = int (card {k. expired c now k})"
  proof -
    from in_ks have "{k \<in> set ks. expired c now k} = {k. expired c now k}" by auto
    with count_cleanLoop [OF d, of c now 0] r show ?thesis by simp
  qed
  moreover have "notified c' = notified c" "deleteCallback c' = deleteCallback c"
    using config_cleanLoop [of c now ks 0] r by simp_all
  ultimately show ?thesis using r by (simp add: cleanInterval_def notify_def)
qed

theorem sweep_removes_expired_witness:
  "consistent (Set_push (Set_push (NewLRUCache (SetDeleteCallback (SetDefaultTTL Configuration 5) True))
       ''a'' (1::int) 0) ''b'' 2 3) \<and>
   distinct [''b'', ''a''] \<and>
   set [''b'', ''a''] = dom (values' (Set_push (Set_push
       (NewLRUCache (SetDeleteCallback (SetDefaultTTL Configuration 5) True)) ''a'' (1::int) 0) ''b'' 2 3)) \<and>
   queue (cleanInterval (Set_push (Set_push
       (NewLRUCache (SetDeleteCallback (SetDefaultTTL Configuration 5) True)) ''a'' (1::int) 0) ''b'' 2 3)
       (\<lambda>_. 6) [''b'', ''a'']) = [\<lparr>addr = 1, Value = \<lparr>key = ''b'', ttl = 8\<rparr>\<rparr>] \<and>
   notified (cleanInterval (Set_push (Set_push
       (NewLRUCache (SetDeleteCallback (SetDefaultTTL Configuration 5) True)) ''a'' (1::int) 0) ''b'' 2 3)
       (\<lambda>_. 6) [''b'', ''a'']) = [1]"
proof -
  let ?cfg = "SetDeleteCallback (SetDefaultTTL Configuration 5) True"
  let ?c0 = "NewLRUCache ?cfg :: (string, int) LRUCache"
  let ?c1 = "Set_push ?c0 ''a'' 1 0"
  let ?c2 = "Set_push ?c1 ''b'' 2 3"
  let ?ea = "\<lparr>addr = 0, Value = \<lparr>key = ''a'', ttl = 5\<rparr>\<rparr>"
  let ?eb = "\<lparr>addr = 1, Value = \<lparr>key = ''b'', ttl = 8\<rparr>\<rparr>"
  have cfg: "ConfigBuilder.defaultTTL ?cfg = 5" "ConfigBuilder.deleteCallback ?cfg"
    by (simp_all add: SetDeleteCallback_def SetDefaultTTL_def)
  have c1: "consistent ?c1"
    by (rule consistent_Set_push [OF consistent_New]) (simp add: New_fields)
  have v2: "values' ?c2 = [''a'' \<mapsto> \<lparr>data = 1, link = ?ea\<rparr>, ''b'' \<mapsto> \<lparr>data = 2, link = ?eb\<rparr>]"
    by (simp add: values_Set_push nextAddr_Set_push New_fields cfg)
  have q2: "queue ?c2 = [?eb, ?ea]"
    by (simp add: queue_Set_push nextAddr_Set_push New_fields cfg)
  have c2: "consistent ?c2"
    by (rule consistent_Set_push [OF c1]) (simp add: values_Set_push New_fields)
  have d: "distinct [''b'', ''a'']" by simp
  have s: "set [''b'', ''a''] = dom (values' ?c2)" by (auto simp: v2)
  have e: "expired ?c2 (\<lambda>_. 6) k = (k = ''a'')" for k
    by (simp add: expired_def v2)
  have cb: "deleteCallback ?c2" "notified ?c2 = []" by (simp_all add: New_fields cfg)
  from sweep_removes_expired [OF c2 d s, of "\<lambda>_. 6"] cb
  have "queue (cleanInterval ?c2 (\<lambda>_. 6) [''b'', ''a'']) = filter (\<lambda>e. \<not> ttl (Value e) < 6) (queue ?c2)"
    and "notified (cleanInterval ?c2 (\<lambda>_. 6) [''b'', ''a'']) = [] @ [int (card {k. expired ?c2 (\<lambda>_. 6) k})]"
    by simp_all
  then have "queue (cleanInterval ?c2 (\<lambda>_. 6) [''b'', ''a'']) = [?eb]"
    and "notified (cleanInterval ?c2 (\<lambda>_. 6) [''b'', ''a'']) = [1]"
    by (simp_all add: q2 e)
  with c2 d s show ?thesis by (simp only: simp_thms)
qed

subsection \<open>C5: the correspondence of store and queue is preserved\<close>

text \<open>
  C5. Every operation keeps the correspondence of store and queue: from a cache in which
  it holds, \<^verbatim>\<open>Get\<close>, \<^verbatim>\<open>Set\<close> (which then returns without a panic), \<^verbatim>\<open>Delete\<close>, \<^verbatim>\<open>Clean\<close> and
  a pass of the sweeper (whatever the order in which it ranges over the map) lead to a
  cache in which it holds. Where it holds, every stored key has exactly one node in the
  queue, the key of every node is stored, and \<^verbatim>\<open>Size()\<close> is the number of stored keys.
\<close>

theorem correspondence_preserved:
  assumes "consistent c"
  shows "consistent (fst (Get c k)) \<and>
         (\<exists>c'. Set c k v now = Inr c' \<and> consistent c') \<and>
         consistent (Delete c k) \<and>
         consistent (Clean c) \<and>
         consistent (cleanInterval c now' ks) \<and>
         (\<forall>k' \<in> dom (values' c). \<exists>!e. e \<in> set (queue c) \<and> key (Value e) = k') \<and>
         (\<forall>e \<in> set (queue c). key (Value e) \<in> dom (values' c)) \<and>
         Size c = int (card (dom (values' c)))"
proof -
  note c = assms
  have "consistent (fst (Get c k))" by (rule consistent_Get [OF c])
  moreover have "\<exists>c'. Set c k v now = Inr c' \<and> consistent c'" by (rule Set_consistent [OF c])
  moreover have "consistent (Delete c k)" by (rule consistent_Delete [OF c])
  moreover have "consistent (Clean c)" by (rule consistent_Clean)
  moreover have "consistent (cleanInterval c now' ks)" by (rule consistent_cleanInterval [OF c])
  moreover have "\<forall>k' \<in> dom (values' c). \<exists>!e. e \<in> set (queue c) \<and> key (Value e) = k'"
    using consistent_one_node [OF c] by blast
  moreover have "\<forall>e \<in> set (queue c). key (Value e) \<in> dom (values' c)"
    using consistent_one_key [OF c] by blast
  moreover have "Size c = int (card (dom (values' c)))" by (rule consistent_Size [OF c])
  ultimately show ?thesis by blast
qed

theorem correspondence_preserved_witness:
  "consistent (Set_push (NewLRUCache Configuration) ''a'' (1::nat) 0) \<and>
   consistent (Delete (Set_push (NewLRUCache Configuration) ''a'' (1::nat) 0) ''a'') \<and>
   consistent (cleanInterval (Set_push (NewLRUCache Configuration) ''a'' (1::nat) 0) (\<lambda>_. 7) [''a'']) \<and>
   Size (Set_push (NewLRUCache Configuration) ''a'' (1::nat) 0) = 1"
proof -
  let ?c = "Set_push (NewLRUCache Configuration) ''a'' (1::nat) 0"
  have h: "consistent ?c"
    by (rule consistent_Set_push [OF consistent_New]) (simp add: NewLRUCache_def)
  have "dom (values' ?c) = {''a''}" by (simp add: values_Set_push NewLRUCache_def)
  with correspondence_preserved [OF h, of "''a''" 1 0 "\<lambda>_. 7" "[''a'']"] h show ?thesis
    by simp
qed

subsection \<open>C6: Get\<close>

text \<open>
  C6. In every state the cache reaches by the calls \<open>ops\<close>: \<^verbatim>\<open>Get\<close> of a stored key
  returns, as found, the value of the last \<^verbatim>\<open>Set\<close> of that key in \<open>ops\<close>, and moves the
  node of the key, which is in the queue, to the front, changing nothing else; \<^verbatim>\<open>Get\<close> of a
  key that is not stored returns not-found and the cache as it was.
\<close>

theorem Get_returns_last_Set:
  assumes r: "reaches config ops c"
  shows "(values' c k = Some cv \<longrightarrow>
            Get c k = (c\<lparr>queue := link cv # remove1 (link cv) (queue c)\<rparr>, lastSet ops k) \<and>
            lastSet ops k = Some (data cv) \<and>
            link cv \<in> set (queue c) \<and> key (Value (link cv)) = k) \<and>
         (values' c k = None \<longrightarrow> Get c k = (c, None))"
proof -
  have a: "Get c k = (c, None)" if "values' c k = None"
    using that by (simp add: Get_def)
  have b: "Get c k = (c\<lparr>queue := link cv # remove1 (link cv) (queue c)\<rparr>, lastSet ops k) \<and>
            lastSet ops k = Some (data cv) \<and>
            link cv \<in> set (queue c) \<and> key (Value (link cv)) = k"
    if f: "values' c k = Some cv"
  proof -
    from r have "consistent c" by (rule reaches_consistent)
    from consistent_link [OF this f] have l: "link cv \<in> set (queue c)" "key (Value (link cv)) = k"
      by auto
    from reaches_lastSet [OF r f] have "lastSet ops k = Some (data cv)" .
    with f l show ?thesis by (simp add: Get_def MoveToFront_def)
  qed
  from a b show ?thesis by blast
qed

theorem Get_returns_last_Set_witness:
  "reaches Configuration [OpSet ''a'' (1::int) 0, OpSet ''b'' 2 1, OpSet ''a'' 3 2]
     (Set_update (Set_push (Set_push (NewLRUCache Configuration) ''a'' 1 0) ''b'' 2 1) ''a''
        \<lparr>data = 1, link = \<lparr>addr = 0, Value = \<lparr>key = ''a'', ttl = - 1\<rparr>\<rparr>\<rparr> 3) \<and>
   snd (Get (Set_update (Set_push (Set_push (NewLRUCache Configuration) ''a'' 1 0) ''b'' 2 1) ''a''
        \<lparr>data = 1, link = \<lparr>addr = 0, Value = \<lparr>key = ''a'', ttl = - 1\<rparr>\<rparr>\<rparr> 3) ''a'') = Some (3::int) \<and>
   map (\<lambda>e. key (Value e))
     (queue (fst (Get (Set_update (Set_push (Set_push (NewLRUCache Configuration) ''a'' (1::int) 0) ''b'' 2 1) ''a''
        \<lparr>data = 1, link = \<lparr>addr = 0, Value = \<lparr>key = ''a'', ttl = - 1\<rparr>\<rparr>\<rparr> 3) ''b''))) = [''b'', ''a''] \<and>
   Get (Set_update (Set_push (Set_push (NewLRUCache Configuration) ''a'' (1::int) 0) ''b'' 2 1) ''a''
        \<lparr>data = 1, link = \<lparr>addr = 0, Value = \<lparr>key = ''a'', ttl = - 1\<rparr>\<rparr>\<rparr> 3) ''c'' =
     (Set_update (Set_push (Set_push (NewLRUCache Configuration) ''a'' 1 0) ''b'' 2 1) ''a''
        \<lparr>data = 1, link = \<lparr>addr = 0, Value = \<lparr>key = ''a'', ttl = - 1\<rparr>\<rparr>\<rparr> 3, None)"
proof -
  let ?c0 = "NewLRUCache Configuration :: (string, int) LRUCache"
  let ?c1 = "Set_push ?c0 ''a'' 1 0"
  let ?c2 = "Set_push ?c1 ''b'' 2 1"
  let ?ea = "\<lparr>addr = 0, Value = \<lparr>key = ''a'', ttl = - 1\<rparr>\<rparr>"
  let ?eb = "\<lparr>addr = 1, Value = \<lparr>key = ''b'', ttl = 0\<rparr>\<rparr>"
  let ?c3 = "Set_update ?c2 ''a'' \<lparr>data = 1, link = ?ea\<rparr> 3"
  have cfg: "maxSize ?c0 = 2147483646" "defaultTTL ?c0 = - 1" "queue ?c0 = []"
    "values' ?c0 = Map.empty" "nextAddr ?c0 = 0"
    by (simp_all add: NewLRUCache_def Configuration_def)
  have s1: "Set ?c0 ''a'' 1 0 = Inr ?c1"
    by (simp add: Set_def Set_insert_def Let_def Len_def queue_Set_push cfg)
  have q1: "queue ?c1 = [?ea]" "values' ?c1 = [''a'' \<mapsto> \<lparr>data = 1, link = ?ea\<rparr>]"
    "nextAddr ?c1 = 1"
    by (simp_all add: Set_push_def Let_def cfg)
  have s2: "Set ?c1 ''b'' 2 1 = Inr ?c2"
    by (simp add: Set_def Set_insert_def Let_def Len_def queue_Set_push cfg q1)
  have q2: "queue ?c2 = [?eb, ?ea]"
    "values' ?c2 = [''a'' \<mapsto> \<lparr>data = 1, link = ?ea\<rparr>, ''b'' \<mapsto> \<lparr>data = 2, link = ?eb\<rparr>]"
    by (simp_all add: Set_push_def Let_def cfg q1)
  have s3: "Set ?c2 ''a'' 3 2 = Inr ?c3"
    by (simp add: Set_def q2)
  have q3: "queue ?c3 = [?ea, ?eb]"
    "values' ?c3 = [''a'' \<mapsto> \<lparr>data = 3, link = ?ea\<rparr>, ''b'' \<mapsto> \<lparr>data = 2, link = ?eb\<rparr>]"
    by (auto simp add: Set_update_def MoveToFront_def q2)
  from reaches_Set [OF reaches_Set [OF reaches_Set [OF reaches_New s1] s2] s3]
  have r: "reaches Configuration [OpSet ''a'' 1 0, OpSet ''b'' 2 1, OpSet ''a'' 3 2] ?c3"
    by simp
  from Get_returns_last_Set [OF r, of "''a''" "\<lparr>data = 3, link = ?ea\<rparr>"] q3
  have g1: "snd (Get ?c3 ''a'') = Some 3" by simp
  from Get_returns_last_Set [OF r, of "''b''" "\<lparr>data = 2, link = ?eb\<rparr>"] q3
  have g2: "map (\<lambda>e. key (Value e)) (queue (fst (Get ?c3 ''b''))) = [''b'', ''a'']" by simp
  from Get_returns_last_Set [OF r, of "''c''"] q3
  have g3: "Get ?c3 ''c'' = (?c3, None)" by simp
  from r g1 g2 g3 show ?thesis by (simp only: simp_thms)
qed

subsection \<open>C7: Delete\<close>

text \<open>
  C7. \<^verbatim>\<open>Delete\<close> of a key that is not stored changes nothing and invokes no callback.
  \<^verbatim>\<open>Delete\<close> of a stored key removes the map entry and the node the entry links to, and
  invokes the callback, when one is configured, once with count 1. When the
  correspondence of store and queue holds, that node is in the queue and is the node of
  the key, and the queue afterwards is the queue without the node of the key, the other
  nodes in their order.
\<close>

theorem Delete_removes_and_notifies:
  "(values' c k = None \<longrightarrow> Delete c k = c) \<and>
   (values' c k = Some cv \<longrightarrow>
      values' (Delete c k) = (values' c)(k := None) \<and>
      queue (Delete c k) = remove1 (link cv) (queue c) \<and>
      (deleteCallback c \<longrightarrow> notified (Delete c k) = notified c @ [1]) \<and>
      (\<not> deleteCallback c \<longrightarrow> notified (Delete c k) = notified c)) \<and>
   (consistent c \<and> values' c k = Some cv \<longrightarrow>
      link cv \<in> set (queue c) \<and> key (Value (link cv)) = k \<and>
      queue (Delete c k) = filter (\<lambda>e. key (Value e) \<noteq> k) (queue c))"
proof -
  have a: "Delete c k = c" if "values' c k = None"
    using that by (simp add: Delete_def)
  have b: "values' (Delete c k) = (values' c)(k := None) \<and>
      queue (Delete c k) = remove1 (link cv) (queue c) \<and>
      (deleteCallback c \<longrightarrow> notified (Delete c k) = notified c @ [1]) \<and>
      (\<not> deleteCallback c \<longrightarrow> notified (Delete c k) = notified c)"
    if "values' c k = Some cv"
    using that by (simp add: Delete_def notify_def unsafeDelete_def Remove_def)
  have d: "link cv \<in> set (queue c) \<and> key (Value (link cv)) = k \<and>
      queue (Delete c k) = filter (\<lambda>e. key (Value e) \<noteq> k) (queue c)"
    if h: "consistent c \<and> values' c k = Some cv"
  proof -
    from h consistent_link [of c k cv]
    have l: "link cv \<in> set (queue c)" "key (Value (link cv)) = k" by auto
    from h have "distinct (map (\<lambda>e. key (Value e)) (queue c))" by (simp add: consistent_def)
    from remove1_filter_key [OF this l(1)] l b h show ?thesis by simp
  qed
  from a b d show ?thesis by blast
qed

theorem Delete_removes_and_notifies_witness:
  "consistent (Set_push (NewLRUCache (SetDeleteCallback Configuration True)) ''a'' (1::nat) 0) \<and>
   values' (Delete (Set_push (NewLRUCache (SetDeleteCallback Configuration True)) ''a'' (1::nat) 0) ''a'')
     = Map.empty \<and>
   queue (Delete (Set_push (NewLRUCache (SetDeleteCallback Configuration True)) ''a'' (1::nat) 0) ''a'')
     = [] \<and>
   notified (Delete (Set_push (NewLRUCache (SetDeleteCallback Configuration True)) ''a'' (1::nat) 0) ''a'')
     = [1] \<and>
   Delete (Set_push (NewLRUCache (SetDeleteCallback Configuration True)) ''a'' (1::nat) 0) ''b''
     = Set_push (NewLRUCache (SetDeleteCallback Configuration True)) ''a'' (1::nat) 0"
proof -
  let ?c0 = "NewLRUCache (SetDeleteCallback Configuration True) :: (string, nat) LRUCache"
  let ?c = "Set_push ?c0 ''a'' 1 0"
  let ?cv = "\<lparr>data = 1::nat, link = \<lparr>addr = 0, Value = \<lparr>key = ''a'', ttl = 0 + defaultTTL ?c0\<rparr>\<rparr>\<rparr>"
  have h: "consistent ?c"
    by (rule consistent_Set_push [OF consistent_New]) (simp add: NewLRUCache_def)
  have v: "values' ?c ''a'' = Some ?cv" by (simp add: values_Set_push NewLRUCache_def)
  have n: "values' ?c ''b'' = None" by (simp add: values_Set_push NewLRUCache_def)
  have cb: "deleteCallback ?c" by (simp add: NewLRUCache_def SetDeleteCallback_def)
  from Delete_removes_and_notifies [of ?c "''a''" ?cv] h v cb
  have d1: "values' (Delete ?c ''a'') = (values' ?c)(''a'' := None)"
    and d2: "queue (Delete ?c ''a'') = filter (\<lambda>e. key (Value e) \<noteq> ''a'') (queue ?c)"
    and d3: "notified (Delete ?c ''a'') = notified ?c @ [1]"
    by blast+
  from Delete_removes_and_notifies [of ?c "''b''" ?cv] n
  have d4: "Delete ?c ''b'' = ?c" by blast
  have "(values' ?c)(''a'' := None) = Map.empty"
    by (simp add: values_Set_push NewLRUCache_def)
  moreover have "filter (\<lambda>e. key (Value e) \<noteq> ''a'') (queue ?c) = []"
    by (simp add: queue_Set_push NewLRUCache_def)
  moreover have "notified ?c @ [1] = [1]" by (simp add: NewLRUCache_def)
  ultimately show ?thesis using h d1 d2 d3 d4 by (simp only: simp_thms)
qed

subsection \<open>C8: Clean\<close>

text \<open>
  C8. After \<^verbatim>\<open>Clean\<close> the cache is empty: \<^verbatim>\<open>Size()\<close> is 0, the map and the queue hold
  nothing, \<^verbatim>\<open>Get\<close> of any key returns not-found and changes nothing, and the callback has
  not been invoked, whatever the cache held.
\<close>

theorem Clean_empties:
  "Size (Clean c) = 0 \<and> values' (Clean c) = Map.empty \<and> queue (Clean c) = [] \<and>
   Get (Clean c) k = (Clean c, None) \<and> notified (Clean c) = notified c"
  by (simp add: Clean_def Size_def Len_def Get_def)

subsection \<open>C9: concurrent callers\<close>

text \<open>
  C9. The correspondence of store and queue does not survive a schedule in which two
  callers set the same new key and both run the first critical section of \<^verbatim>\<open>Set\<close> before
  either runs the second: each has seen the key as not found, each pushes a node, and the
  second store overwrites the map entry of the first. On an empty cache with the default
  configuration the run ends with two nodes for the one stored key: \<^verbatim>\<open>Size()\<close> is 2 and
  the map holds 1 key.
\<close>

theorem concurrent_Set_breaks_correspondence:
  "\<exists>c. interleave (NewLRUCache Configuration)
          [Set_check ''a'' (1::int), Set_check ''a'' 2] [(0, 0), (1, 0), (0, 0), (1, 0)] =
          Inr (c, [Done, Done]) \<and>
       queue c = [\<lparr>addr = 1, Value = \<lparr>key = ''a'', ttl = - 1\<rparr>\<rparr>,
                  \<lparr>addr = 0, Value = \<lparr>key = ''a'', ttl = - 1\<rparr>\<rparr>] \<and>
       values' c = [''a'' \<mapsto> \<lparr>data = 2, link = \<lparr>addr = 1, Value = \<lparr>key = ''a'', ttl = - 1\<rparr>\<rparr>\<rparr>] \<and>
       Size c = 2 \<and> card (dom (values' c)) = 1"
proof -
  let ?c0 = "NewLRUCache Configuration :: (string, int) LRUCache"
  let ?c1 = "Set_push ?c0 ''a'' 1 0"
  let ?c2 = "Set_push ?c1 ''a'' 2 0"
  have cfg: "ConfigBuilder.maxSize Configuration = 2147483646"
    "ConfigBuilder.defaultTTL Configuration = - 1"
    by (simp_all add: Configuration_def)
  have i1: "Set_insert ?c0 ''a'' 1 0 = Inr ?c1"
    by (simp add: Set_insert_def Let_def Len_def queue_Set_push New_fields cfg)
  have i2: "Set_insert ?c1 ''a'' 2 0 = Inr ?c2"
    by (simp add: Set_insert_def Let_def Len_def queue_Set_push New_fields cfg)
  have run: "interleave ?c0 [Set_check ''a'' 1, Set_check ''a'' 2] [(0, 0), (1, 0), (0, 0), (1, 0)]
      = Inr (?c2, [Done, Done])"
    by (simp add: i1 i2 New_fields)
  have q: "queue ?c2 = [\<lparr>addr = 1, Value = \<lparr>key = ''a'', ttl = - 1\<rparr>\<rparr>,
                  \<lparr>addr = 0, Value = \<lparr>key = ''a'', ttl = - 1\<rparr>\<rparr>]"
    by (simp add: queue_Set_push nextAddr_Set_push New_fields cfg)
  have v: "values' ?c2 = [''a'' \<mapsto> \<lparr>data = 2, link = \<lparr>addr = 1, Value = \<lparr>key = ''a'', ttl = - 1\<rparr>\<rparr>\<rparr>]"
    by (simp add: values_Set_push nextAddr_Set_push New_fields cfg)
  have "Size ?c2 = 2" unfolding Size_def q by (simp add: Len_def)
  moreover have "card (dom (values' ?c2)) = 1" unfolding v by simp
  ultimately show ?thesis using run q v by blast
qed

subsection \<open>C10: Set of a stored key\<close>

text \<open>
  C10. \<^verbatim>\<open>Set\<close> of a stored key, in a cache where the correspondence of store and queue
  holds, returns without eviction: the entry of the key holds the new value and the same
  node, hence the same expiry; every other entry is as before; the node of the key is at
  the front, and the other nodes keep their order; configuration and notifications are as
  before.
\<close>

theorem Set_existing_key:
  assumes c: "consistent c" and f: "values' c k = Some cv"
  shows "\<exists>c'. Set c k v now = Inr c' \<and>
           values' c' = (values' c)(k \<mapsto> cv\<lparr>data := v\<rparr>) \<and>
           map_option data (values' c' k) = Some v \<and>
           map_option link (values' c' k) = Some (link cv) \<and>
           map_option (\<lambda>x. ttl (Value (link x))) (values' c' k) = Some (ttl (Value (link cv))) \<and>
           (\<forall>k'. k' \<noteq> k \<longrightarrow> values' c' k' = values' c k') \<and>
           link cv \<in> set (queue c) \<and> key (Value (link cv)) = k \<and>
           queue c' = link cv # remove1 (link cv) (queue c) \<and>
           remove1 (link cv) (queue c') = remove1 (link cv) (queue c) \<and>
           maxSize c' = maxSize c \<and> defaultTTL c' = defaultTTL c \<and>
           deleteCallback c' = deleteCallback c \<and> notified c' = notified c"
proof -
  from consistent_link [OF c f] have l: "link cv \<in> set (queue c)" "key (Value (link cv)) = k"
    by auto
  from f have "Set c k v now = Inr (Set_update c k cv v)" by (simp add: Set_def)
  moreover have "values' (Set_update c k cv v) = (values' c)(k \<mapsto> cv\<lparr>data := v\<rparr>)"
    by (simp add: Set_update_def)
  moreover have "queue (Set_update c k cv v) = link cv # remove1 (link cv) (queue c)"
    using l by (simp add: Set_update_def MoveToFront_def)
  moreover have "maxSize (Set_update c k cv v) = maxSize c"
    "defaultTTL (Set_update c k cv v) = defaultTTL c"
    "deleteCallback (Set_update c k cv v) = deleteCallback c"
    "notified (Set_update c k cv v) = notified c"
    by (simp_all add: Set_update_def)
  ultimately show ?thesis using l by simp
qed

theorem Set_existing_key_witness:
  "consistent (Set_push (NewLRUCache (SetDefaultTTL Configuration 5)) ''a'' (1::nat) 0) \<and>
   values' (Set_push (NewLRUCache (SetDefaultTTL Configuration 5)) ''a'' (1::nat) 0) ''a'' =
     Some \<lparr>data = 1, link = \<lparr>addr = 0, Value = \<lparr>key = ''a'', ttl = 5\<rparr>\<rparr>\<rparr> \<and>
   (\<exists>c'. Set (Set_push (NewLRUCache (SetDefaultTTL Configuration 5)) ''a'' (1::nat) 0) ''a'' 2 9 = Inr c' \<and>
      values' c' ''a'' = Some \<lparr>data = 2, link = \<lparr>addr = 0, Value = \<lparr>key = ''a'', ttl = 5\<rparr>\<rparr>\<rparr>)"
proof -
  let ?c0 = "NewLRUCache (SetDefaultTTL Configuration 5) :: (string, nat) LRUCache"
  let ?c = "Set_push ?c0 ''a'' 1 0"
  let ?cv = "\<lparr>data = 1::nat, link = \<lparr>addr = 0, Value = \<lparr>key = ''a'', ttl = 5\<rparr>\<rparr>\<rparr>"
  have h: "consistent ?c"
    by (rule consistent_Set_push [OF consistent_New]) (simp add: NewLRUCache_def)
  have v: "values' ?c ''a'' = Some ?cv"
    by (simp add: values_Set_push NewLRUCache_def SetDefaultTTL_def)
  from Set_existing_key [OF h v, of 2 9] obtain c' where
    "Set ?c ''a'' 2 9 = Inr c'" "values' c' = (values' ?c)(''a'' \<mapsto> ?cv\<lparr>data := 2\<rparr>)"
    by blast
  with h v show ?thesis by simp
qed

end
